theory Spec2Isabelle
  imports Main "HOL-Library.AList" "HOL-Library.Multiset"
begin

section \<open>Schema node model\<close>

text \<open>
  The module \<^verbatim>\<open>kaiwadb.models.instance\<close> declares the node classes that
  \<^verbatim>\<open>schema_mapping.py\<close> instantiates.  Each class is a constructor here, with the
  keyword arguments the source passes (in the order alias, description, optional, payload).
  The value of an enumeration member is a string or an integer.  What pydantic validates
  when a node is constructed is outside this development.
\<close>

datatype PrimitiveType = BOOL | INTEGER | FLOAT | STRING | DATETIME | DATE | TIME | OID | UUID

datatype pyvalue = StrValue string | IntValue int

datatype Variant = Variant (variant_value: pyvalue) (variant_alias: "string option")

datatype Field =
    PrimitiveField (node_alias: "string option") (node_description: "string option") (node_optional: bool)
      (primitive_type: PrimitiveType)
  | ArrayField (node_alias: "string option") (node_description: "string option") (node_optional: bool)
      (array_item: Field)
  | UnionField (node_alias: "string option") (node_description: "string option") (node_optional: bool)
      (union_types: "Field list")
  | EnumField (node_alias: "string option") (node_description: "string option") (node_optional: bool)
      (enum_name: string) (variants: "Variant list")
  | ObjectField (node_alias: "string option") (node_description: "string option") (node_optional: bool)
      (properties: "(string \<times> Field) list")

record Table =
  table_name :: string
  table_alias :: string
  table_fields :: "(string \<times> Field) list"

section \<open>Type annotations\<close>

text \<open>
  What \<^verbatim>\<open>get_origin\<close> can answer for an annotation, and which implementation a
  parameterised alias has: \<^verbatim>\<open>list[int]\<close> is a \<^verbatim>\<open>types.GenericAlias\<close>,
  \<^verbatim>\<open>typing.List[int]\<close> a \<^verbatim>\<open>typing._GenericAlias\<close>.
\<close>

datatype origin = typing_Union | types_UnionType | builtins_list | other_origin string

datatype alias_impl = types_GenericAlias | typing_GenericAlias

text \<open>
  An annotation is a plain class (identified by its qualified name), an enumeration class
  with its members \<open>(name, value)\<close> in iteration order, a pydantic model class with its
  \<^verbatim>\<open>model_fields\<close> in declaration order, a parameterised alias with its origin and
  arguments, or an object that is neither a class nor an alias (a type variable, a forward
  reference).  The tree is finite: a model that refers to itself is not represented.
\<close>

datatype annotation =
    Class string
  | EnumClass string "(string \<times> pyvalue) list"
  | ModelClass string "(string \<times> FieldInfo) list"
  | Alias alias_impl origin "annotation list"
  | NotAClass string
and FieldInfo =
    FieldInfo (field_alias: "string option") (field_description: "string option")
      (field_annotation: "annotation option")

abbreviation NoneType :: annotation where
  "NoneType \<equiv> Class ''NoneType''"

fun get_origin :: "annotation \<Rightarrow> origin option" where
  "get_origin (Alias impl og args) = Some og"
| "get_origin _ = None"

fun get_args :: "annotation \<Rightarrow> annotation list" where
  "get_args (Alias impl og args) = args"
| "get_args _ = []"

fun class_name :: "annotation \<Rightarrow> string" where
  "class_name (Class n) = n"
| "class_name (EnumClass n members) = n"
| "class_name (ModelClass n fs) = n"
| "class_name _ = []"

fun enum_members :: "annotation \<Rightarrow> (string \<times> pyvalue) list" where
  "enum_members (EnumClass n members) = members"
| "enum_members _ = []"

fun model_fields :: "annotation \<Rightarrow> (string \<times> FieldInfo) list" where
  "model_fields (ModelClass n fs) = fs"
| "model_fields _ = []"

datatype error =
    NotImplementedError annotation
  | TypeError string
  | AttributeError string

section \<open>The Python runtime\<close>

text \<open>
  Two things the derivation takes from the interpreter and from pydantic, not from
  \<^verbatim>\<open>schema_mapping.py\<close>:
  \<^item> the order in which \<^verbatim>\<open>set(args)\<close> iterates depends on the hashes of the elements,
    on the size of the table and on the order of insertion, so it is fixed for each tuple
    but not by the tuple's order nor by one ranking of the types; \<open>iteration_order\<close> gives
    it for each tuple, and \<open>py_set\<close> is the set of a tuple: its distinct elements in
    that order (in the order of \<open>remdups\<close> should \<open>iteration_order\<close> not list exactly the
    elements of the tuple, each once);
  \<^item> \<^verbatim>\<open>issubclass(x, BaseModel)\<close> for an \<open>x\<close> that is not a class either answers
    \<open>False\<close> (a metaclass that first looks for \<^verbatim>\<open>__pydantic_decorators__\<close>) or raises
    \<^verbatim>\<open>TypeError\<close> (as \<^verbatim>\<open>abc.ABCMeta\<close> does); \<open>lenient_subclasscheck\<close> says which.
\<close>

record runtime =
  iteration_order :: "annotation list \<Rightarrow> annotation list"
  lenient_subclasscheck :: bool

definition py_set :: "runtime \<Rightarrow> annotation list \<Rightarrow> annotation list" where
  "py_set rt xs =
     (let ys = iteration_order rt xs
      in if distinct ys \<and> set ys = set xs then ys else remdups xs)"

text \<open>\<^verbatim>\<open>x or y\<close> for an \<open>x\<close> of type \<^verbatim>\<open>str | None\<close>: \<^verbatim>\<open>None\<close> and the empty string
  are falsy.\<close>

definition py_or :: "string option \<Rightarrow> string \<Rightarrow> string" where
  "py_or x y = (case x of None \<Rightarrow> y | Some s \<Rightarrow> if s = [] then y else s)"

text \<open>
  \<^verbatim>\<open>issubclass(x, Enum)\<close>: for a class the answer; for a \<^verbatim>\<open>types.GenericAlias\<close>
  such as \<^verbatim>\<open>list[int, str]\<close> the answer for its origin, since the alias forwards the
  lookup of \<^verbatim>\<open>__bases__\<close> (no origin considered here is an enumeration); for a
  \<^verbatim>\<open>typing\<close> alias and for any other object that is not a class, a \<^verbatim>\<open>TypeError\<close>.
  A plain \<open>Class\<close> is neither an enumeration nor a model.
\<close>

definition not_a_class :: error where
  "not_a_class = TypeError ''issubclass() arg 1 must be a class''"

fun issubclass_Enum :: "annotation \<Rightarrow> error + bool" where
  "issubclass_Enum (Class n) = Inr False"
| "issubclass_Enum (EnumClass n members) = Inr True"
| "issubclass_Enum (ModelClass n fs) = Inr False"
| "issubclass_Enum (Alias types_GenericAlias og args) = Inr False"
| "issubclass_Enum (Alias typing_GenericAlias og args) = Inl not_a_class"
| "issubclass_Enum (NotAClass n) = Inl not_a_class"

fun issubclass_BaseModel :: "runtime \<Rightarrow> annotation \<Rightarrow> error + bool" where
  "issubclass_BaseModel rt (Class n) = Inr False"
| "issubclass_BaseModel rt (EnumClass n members) = Inr False"
| "issubclass_BaseModel rt (ModelClass n fs) = Inr True"
| "issubclass_BaseModel rt a =
     (if lenient_subclasscheck rt then Inr False else Inl not_a_class)"

text \<open>A comprehension evaluates its elements in order; the first exception ends it.\<close>

fun sequence :: "('e + 'a) list \<Rightarrow> 'e + 'a list" where
  "sequence [] = Inr []"
| "sequence (Inl e # rs) = Inl e"
| "sequence (Inr x # rs) = (case sequence rs of Inl e \<Rightarrow> Inl e | Inr xs \<Rightarrow> Inr (x # xs))"

text \<open>A dict filled from pairs in order: a key that occurs again keeps its position and
  takes the later value.\<close>

definition dict :: "('k \<times> 'v) list \<Rightarrow> ('k \<times> 'v) list" where
  "dict kvs = foldl (\<lambda>d (k, v). AList.update k v d) [] kvs"

section \<open>schema\_mapping.py\<close>

text \<open>
  \<open>PRIMITIVES\<close> is the dict of the source, keyed by class.  \<open>map_to_type\<close> follows the
  source branch by branch; the error of \<^verbatim>\<open>raise NotImplementedError(f"KaiwaDB does not
  support {annotation}")\<close> carries the annotation that its message names.
\<close>

definition PRIMITIVES :: "annotation \<rightharpoonup> PrimitiveType" where
  "PRIMITIVES =
     [Class ''bool'' \<mapsto> BOOL,
      Class ''int'' \<mapsto> INTEGER,
      Class ''float'' \<mapsto> FLOAT,
      Class ''str'' \<mapsto> STRING,
      Class ''datetime.datetime'' \<mapsto> DATETIME,
      Class ''datetime.date'' \<mapsto> DATE,
      Class ''datetime.time'' \<mapsto> TIME,
      Class ''ObjectId'' \<mapsto> OID,
      Class ''uuid.UUID'' \<mapsto> UUID]"

function map_to_type ::
  "runtime \<Rightarrow> annotation \<Rightarrow> string option \<Rightarrow> string option \<Rightarrow> bool \<Rightarrow> error + Field"
where
  "map_to_type rt annotation alias description optional =
    (if get_origin annotation \<in> {Some typing_Union, Some types_UnionType} then
       (let args = py_set rt (get_args annotation);
            optional' = (NoneType \<in> set args);
            args' = (if optional' then removeAll NoneType args else args)
        in case args' of
             [a] \<Rightarrow> map_to_type rt a alias description optional'
           | _ \<Rightarrow>
             (case sequence (map (\<lambda>a. map_to_type rt a None None False) args') of
                Inl e \<Rightarrow> Inl e
              | Inr types \<Rightarrow> Inr (UnionField alias description optional' types)))
     else if get_origin annotation = Some builtins_list \<and> length (get_args annotation) = 1 then
       (case map_to_type rt (get_args annotation ! 0) None None False of
          Inl e \<Rightarrow> Inl e
        | Inr item \<Rightarrow> Inr (ArrayField alias description optional item))
     else
       (case PRIMITIVES annotation of
          Some t \<Rightarrow> Inr (PrimitiveField alias description optional t)
        | None \<Rightarrow>
          (case issubclass_Enum annotation of
             Inl e \<Rightarrow> Inl e
           | Inr True \<Rightarrow>
               Inr (EnumField alias description optional (class_name annotation)
                      (map (\<lambda>(variant_name, variant_value).
                              Variant variant_value
                                (if StrValue variant_name \<noteq> variant_value
                                 then Some variant_name else None))
                           (enum_members annotation)))
           | Inr False \<Rightarrow>
             (case issubclass_BaseModel rt annotation of
                Inl e \<Rightarrow> Inl e
              | Inr True \<Rightarrow>
                (case sequence
                        (map (\<lambda>(name, field).
                                case map_to_type rt (the (field_annotation field)) (Some name)
                                       (field_description field) False of
                                  Inl e \<Rightarrow> Inl e
                                | Inr node \<Rightarrow> Inr (py_or (field_alias field) name, node))
                             (filter (\<lambda>(name, field). field_annotation field \<noteq> None)
                                (model_fields annotation))) of
                   Inl e \<Rightarrow> Inl e
                 | Inr items \<Rightarrow> Inr (ObjectField alias description optional (dict items)))
              | Inr False \<Rightarrow> Inl (NotImplementedError annotation)))))"
  by pat_completeness auto

text \<open>
  A document class is a pydantic model class with the class attributes
  \<^verbatim>\<open>__collection__\<close> and \<^verbatim>\<open>__table__\<close>; \<^verbatim>\<open>__name__\<close> is the name of the class.
\<close>

datatype Document =
  Document (doc_collection: "string option") (doc_table: "string option") (doc_name: string)
    (doc_fields: "(string \<times> FieldInfo) list")

definition document_class :: "Document \<Rightarrow> annotation" where
  "document_class doc = ModelClass (doc_name doc) (doc_fields doc)"

definition get_properties :: "Field \<Rightarrow> error + (string \<times> Field) list" where
  "get_properties node =
     (case node of
        ObjectField a d o' props \<Rightarrow> Inr props
      | _ \<Rightarrow> Inl (AttributeError ''properties''))"

definition map_documents_to_tables :: "runtime \<Rightarrow> Document list \<Rightarrow> error + Table list" where
  "map_documents_to_tables rt documents =
     sequence
       (map (\<lambda>doc.
               case map_to_type rt (document_class doc) None None False of
                 Inl e \<Rightarrow> Inl e
               | Inr node \<Rightarrow>
                 (case get_properties node of
                    Inl e \<Rightarrow> Inl e
                  | Inr props \<Rightarrow>
                      Inr \<lparr>table_name =
                             py_or (doc_collection doc) (py_or (doc_table doc) (doc_name doc)),
                           table_alias = doc_name doc,
                           table_fields = props\<rparr>))
            documents)"

section \<open>Notions used to state the properties\<close>

text \<open>The members a union keeps once the null marker is removed, in iteration order.\<close>

definition non_null :: "runtime \<Rightarrow> annotation list \<Rightarrow> annotation list" where
  "non_null rt args = removeAll NoneType (py_set rt args)"

text \<open>The element of the dict comprehension for one declared field.\<close>

definition map_field :: "runtime \<Rightarrow> string \<times> FieldInfo \<Rightarrow> error + (string \<times> Field)" where
  "map_field rt = (\<lambda>(name, field).
     case map_to_type rt (the (field_annotation field)) (Some name) (field_description field) False of
       Inl e \<Rightarrow> Inl e
     | Inr node \<Rightarrow> Inr (py_or (field_alias field) name, node))"

definition annotated :: "(string \<times> FieldInfo) list \<Rightarrow> (string \<times> FieldInfo) list" where
  "annotated fs = filter (\<lambda>(name, field). field_annotation field \<noteq> None) fs"

text \<open>
  The precedence rules in words: a name is given when it is set and is not the empty
  string.  The key of a declared field is its alias when given, else its declared name;
  the name of a table is the collection name when given, else the table name when given,
  else the name of the class.
\<close>

definition given :: "string option \<Rightarrow> bool" where
  "given x = (case x of None \<Rightarrow> False | Some s \<Rightarrow> s \<noteq> [])"

definition field_key :: "string \<times> FieldInfo \<Rightarrow> string" where
  "field_key = (\<lambda>(name, field).
     if given (field_alias field) then the (field_alias field) else name)"

definition resolved_name :: "Document \<Rightarrow> string" where
  "resolved_name doc =
     (if given (doc_collection doc) then the (doc_collection doc)
      else if given (doc_table doc) then the (doc_table doc)
      else doc_name doc)"

definition is_union :: "annotation \<Rightarrow> bool" where
  "is_union t = (get_origin t \<in> {Some typing_Union, Some types_UnionType})"

text \<open>The members of a type as \<^verbatim>\<open>typing\<close> takes them when it builds a union of the
  type with others: the arguments of a union, the type itself otherwise.\<close>

definition members_of :: "annotation \<Rightarrow> annotation list" where
  "members_of T = (if is_union T then get_args T else [T])"

text \<open>Two nodes are the same up to the order of children when they are equal, or are
  \<open>UnionField\<close>s that differ only in the order of their children.\<close>

fun same_up_to_child_order :: "Field \<Rightarrow> Field \<Rightarrow> bool" where
  "same_up_to_child_order (UnionField a d o' ts) (UnionField a2 d2 o2 ts2) =
     (a = a2 \<and> d = d2 \<and> o' = o2 \<and> mset ts = mset ts2)"
| "same_up_to_child_order n n2 = (n = n2)"

fun with_optional :: "bool \<Rightarrow> Field \<Rightarrow> Field" where
  "with_optional b (PrimitiveField a d o' p) = PrimitiveField a d b p"
| "with_optional b (ArrayField a d o' i) = ArrayField a d b i"
| "with_optional b (UnionField a d o' ts) = UnionField a d b ts"
| "with_optional b (EnumField a d o' n vs) = EnumField a d b n vs"
| "with_optional b (ObjectField a d o' ps) = ObjectField a d b ps"

text \<open>A runtime to evaluate examples in: a set iterates in the order of the tuple it
  was built from.\<close>

definition example_runtime :: runtime where
  "example_runtime = \<lparr>iteration_order = (\<lambda>xs. xs), lenient_subclasscheck = False\<rparr>"

text \<open>A runtime with the iteration orders that CPython 3.11 shows for the members of
  \<^verbatim>\<open>Union[int, str, float, bool]\<close> and of \<^verbatim>\<open>Optional[Union[int, str, float, bool]]\<close>.\<close>

definition observed_runtime :: runtime where
  "observed_runtime =
     \<lparr>iteration_order = (\<lambda>xs.
        if xs = [Class ''int'', Class ''str'', Class ''float'', Class ''bool'']
        then [Class ''str'', Class ''float'', Class ''int'', Class ''bool'']
        else if xs = [Class ''int'', Class ''str'', Class ''float'', Class ''bool'', NoneType]
        then [Class ''float'', Class ''int'', NoneType, Class ''str'', Class ''bool'']
        else xs),
      lenient_subclasscheck = False\<rparr>"

section \<open>Termination\<close>

text \<open>
  Every recursive call is on an argument of an alias or on the annotation of a declared
  field, so the recursion ends on every (finite) annotation.
\<close>

lemma size_get_args: "a \<in> set (get_args t) \<Longrightarrow> size a < size t"
  by (cases t) (auto simp: less_Suc_eq_le dest: size_list_estimation')

lemma size_model_fields:
  "(n, f) \<in> set (model_fields t) \<Longrightarrow> field_annotation f = Some a \<Longrightarrow> size a < size t"
proof (cases t)
  case (ModelClass c fs)
  assume "(n, f) \<in> set (model_fields t)" and fa: "field_annotation f = Some a"
  with ModelClass have mem: "(n, f) \<in> set fs" by simp
  have "size a < size f" using fa by (cases f) simp
  also have "size f \<le> size_prod (\<lambda>x. 0) size (n, f)" by simp
  also have "\<dots> \<le> size_list (size_prod (\<lambda>x. 0) size) fs"
    using mem by (simp add: size_list_estimation')
  finally show ?thesis using ModelClass by simp
qed simp_all

lemma set_py_set [simp]: "set (py_set rt xs) = set xs"
  by (simp add: py_set_def Let_def)

lemma distinct_py_set [simp]: "distinct (py_set rt xs)"
  by (simp add: py_set_def Let_def)

lemma remaining_member:
  "a \<in> set (if c then removeAll n (py_set rt (get_args t)) else py_set rt (get_args t))
    \<Longrightarrow> size a < size t"
  by (auto simp: size_get_args split: if_splits)

lemma remaining_single:
  "[a] = (if c then removeAll n (py_set rt (get_args t)) else py_set rt (get_args t))
    \<Longrightarrow> size a < size t"
proof -
  assume eq: "[a] = (if c then removeAll n (py_set rt (get_args t)) else py_set rt (get_args t))"
  have "a \<in> set [a]" by simp
  then have "a \<in> set (if c then removeAll n (py_set rt (get_args t)) else py_set rt (get_args t))"
    by (simp only: eq)
  then show ?thesis by (rule remaining_member)
qed

termination map_to_type
  by (relation "measure (\<lambda>(rt, t, a, d, o'). size t)")
     (auto simp: remaining_single remaining_member size_get_args size_model_fields)

declare map_to_type.simps [simp del]

section \<open>Well-formed annotations and schema trees\<close>

text \<open>
  \<^verbatim>\<open>typing\<close> builds a union only from at least two distinct members; an annotation is
  well formed when every union in it is such.  A schema tree has proper unions when every
  \<open>UnionField\<close> in it has at least two children.
\<close>

fun unions_have_two :: "Field \<Rightarrow> bool" where
  "unions_have_two (PrimitiveField a d o' p) = True"
| "unions_have_two (ArrayField a d o' i) = unions_have_two i"
| "unions_have_two (UnionField a d o' ts) = (2 \<le> length ts \<and> (\<forall>t \<in> set ts. unions_have_two t))"
| "unions_have_two (EnumField a d o' n vs) = True"
| "unions_have_two (ObjectField a d o' ps) = (\<forall>v \<in> set (map snd ps). unions_have_two v)"

function well_formed :: "annotation \<Rightarrow> bool" where
  "well_formed (Alias k og args) =
     ((og = typing_Union \<or> og = types_UnionType \<longrightarrow> 2 \<le> length (remdups args))
      \<and> (\<forall>a \<in> set args. well_formed a))"
| "well_formed (ModelClass n fs) =
     (\<forall>f \<in> set (annotated fs). well_formed (the (field_annotation (snd f))))"
| "well_formed (Class n) = True"
| "well_formed (EnumClass n ms) = True"
| "well_formed (NotAClass n) = True"
  by pat_completeness auto
termination
proof (relation "measure size", goal_cases)
  case 1
  show ?case by simp
next
  case (2 k og args a)
  then show ?case using size_get_args [of a "Alias k og args"] by simp
next
  case (3 n fs f)
  then obtain t where "field_annotation (snd f) = Some t" and "(fst f, snd f) \<in> set fs"
    by (auto simp: annotated_def)
  then show ?case using size_model_fields [of "fst f" "snd f" "ModelClass n fs" t] by simp
qed

section \<open>The branches of the dispatch\<close>

lemma PRIMITIVES_not_class [simp]:
  "PRIMITIVES (EnumClass n ms) = None" "PRIMITIVES (ModelClass n fs) = None"
  "PRIMITIVES (Alias k og args) = None" "PRIMITIVES (NotAClass n) = None"
  by (simp_all add: PRIMITIVES_def)

lemma union_remaining:
  "(if NoneType \<in> set args
    then removeAll NoneType (py_set rt args) else py_set rt args) = non_null rt args"
  by (simp add: non_null_def)

lemma map_to_type_union:
  assumes "og = typing_Union \<or> og = types_UnionType"
  shows "map_to_type rt (Alias k og args) a d o' =
    (case non_null rt args of
       [x] \<Rightarrow> map_to_type rt x a d (NoneType \<in> set args)
     | xs \<Rightarrow> (case sequence (map (\<lambda>x. map_to_type rt x None None False) xs) of
                Inl e \<Rightarrow> Inl e
              | Inr ts \<Rightarrow> Inr (UnionField a d (NoneType \<in> set args) ts)))"
proof -
  have og: "get_origin (Alias k og args) \<in> {Some typing_Union, Some types_UnionType}"
    using assms by auto
  have "map_to_type rt (Alias k og args) a d o' =
    (case non_null rt args of
       [x] \<Rightarrow> map_to_type rt x a d (NoneType \<in> set args)
     | _ \<Rightarrow> (case sequence (map (\<lambda>x. map_to_type rt x None None False) (non_null rt args)) of
                Inl e \<Rightarrow> Inl e
              | Inr ts \<Rightarrow> Inr (UnionField a d (NoneType \<in> set args) ts)))"
    apply (subst map_to_type.simps)
    apply (simp only: og if_True Let_def get_args.simps set_py_set)
    unfolding union_remaining
    apply (rule refl)
    done
  then show ?thesis
    by (cases "non_null rt args" rule: remdups_adj.cases) simp_all
qed

lemma map_to_type_list:
  "map_to_type rt (Alias k builtins_list [x]) a d o' =
    (case map_to_type rt x None None False of
       Inl e \<Rightarrow> Inl e
     | Inr node \<Rightarrow> Inr (ArrayField a d o' node))"
  by (subst map_to_type.simps) simp

lemma map_to_type_primitive:
  "PRIMITIVES (Class n) = Some p \<Longrightarrow> map_to_type rt (Class n) a d o' = Inr (PrimitiveField a d o' p)"
  by (subst map_to_type.simps) simp

lemma map_to_type_other_class:
  "PRIMITIVES (Class n) = None \<Longrightarrow> map_to_type rt (Class n) a d o' = Inl (NotImplementedError (Class n))"
  by (subst map_to_type.simps) simp

lemma map_to_type_enum:
  "map_to_type rt (EnumClass n ms) a d o' =
     Inr (EnumField a d o' n
       (map (\<lambda>(variant_name, variant_value).
               Variant variant_value
                 (if StrValue variant_name \<noteq> variant_value then Some variant_name else None)) ms))"
  by (subst map_to_type.simps) simp

lemma map_to_type_model:
  "map_to_type rt (ModelClass n fs) a d o' =
    (case sequence (map (map_field rt) (annotated fs)) of
       Inl e \<Rightarrow> Inl e
     | Inr items \<Rightarrow> Inr (ObjectField a d o' (dict items)))"
  by (subst map_to_type.simps) (simp add: map_field_def annotated_def)

lemma map_to_type_not_a_class:
  "map_to_type rt (NotAClass n) a d o' = Inl not_a_class"
  by (subst map_to_type.simps) simp

lemma map_to_type_typing_alias:
  assumes "og \<noteq> typing_Union" "og \<noteq> types_UnionType" "og = builtins_list \<longrightarrow> length args \<noteq> 1"
  shows "map_to_type rt (Alias typing_GenericAlias og args) a d o' = Inl not_a_class"
  using assms by (subst map_to_type.simps) auto

lemma map_to_type_builtin_alias:
  assumes "og \<noteq> typing_Union" "og \<noteq> types_UnionType" "og = builtins_list \<longrightarrow> length args \<noteq> 1"
  shows "map_to_type rt (Alias types_GenericAlias og args) a d o' =
    (if lenient_subclasscheck rt then Inl (NotImplementedError (Alias types_GenericAlias og args))
     else Inl not_a_class)"
  using assms by (subst map_to_type.simps) auto


section \<open>General facts\<close>

lemma py_or_given: "py_or x y = (if given x then the x else y)"
  by (cases x) (simp_all add: py_or_def given_def)

lemma field_key_alt: "field_key = (\<lambda>(name, field). py_or (field_alias field) name)"
  by (simp add: field_key_def py_or_given)

lemma resolved_name_alt:
  "resolved_name doc = py_or (doc_collection doc) (py_or (doc_table doc) (doc_name doc))"
  by (simp add: resolved_name_def py_or_given)

lemma sequence_Inr_iff: "sequence rs = Inr xs \<longleftrightarrow> rs = map Inr xs"
proof (induction rs arbitrary: xs)
  case Nil
  show ?case by auto
next
  case (Cons r rs)
  show ?case
  proof (cases r)
    case (Inl e)
    then show ?thesis by auto
  next
    case (Inr x)
    have "sequence (r # rs) = Inr xs \<longleftrightarrow> (\<exists>ys. sequence rs = Inr ys \<and> xs = x # ys)"
      unfolding Inr by (auto split: sum.splits)
    also have "\<dots> \<longleftrightarrow> (\<exists>ys. rs = map Inr ys \<and> xs = x # ys)"
      by (simp add: Cons.IH)
    also have "\<dots> \<longleftrightarrow> r # rs = map Inr xs"
      unfolding Inr by (cases xs) auto
    finally show ?thesis .
  qed
qed

lemma sequence_Inl_iff: "(\<exists>e. sequence rs = Inl e) \<longleftrightarrow> (\<exists>e. Inl e \<in> set rs)"
proof (induction rs)
  case Nil
  show ?case by simp
next
  case (Cons r rs)
  then show ?case by (cases r) (auto split: sum.splits)
qed

lemma sequence_map_success:
  assumes "\<forall>x \<in> set xs. \<exists>y. f x = Inr y"
  shows "\<exists>ys. sequence (map f xs) = Inr ys \<and> map f xs = map Inr ys"
proof (cases "sequence (map f xs)")
  case (Inl e)
  then have "\<exists>e. Inl e \<in> set (map f xs)" using sequence_Inl_iff [of "map f xs"] by blast
  with assms show ?thesis by auto
next
  case (Inr ys)
  then show ?thesis by (simp add: sequence_Inr_iff)
qed

lemma alias_cases:
  fixes og :: origin and args :: "annotation list"
  obtains (union) "og = typing_Union \<or> og = types_UnionType"
  | (list1) x where "og = builtins_list" "args = [x]"
  | (other) "og \<noteq> typing_Union" "og \<noteq> types_UnionType" "og = builtins_list \<longrightarrow> length args \<noteq> 1"
proof (cases "og = typing_Union \<or> og = types_UnionType")
  case True
  then show ?thesis by (rule union)
next
  case nu: False
  show ?thesis
  proof (cases "og = builtins_list \<and> length args = 1")
    case True
    then obtain x where "args = [x]" by (cases args) auto
    with True show ?thesis by (auto intro: list1)
  next
    case False
    with nu show ?thesis by (auto intro: other)
  qed
qed

lemma map_to_type_unsupported_alias:
  assumes "og \<noteq> typing_Union" "og \<noteq> types_UnionType" "og = builtins_list \<longrightarrow> length args \<noteq> 1"
  shows "\<exists>e. map_to_type rt (Alias k og args) a d o' = Inl e"
  using assms by (cases k) (simp_all add: map_to_type_builtin_alias map_to_type_typing_alias)

lemma map_to_type_class:
  "map_to_type rt (Class n) a d o' =
     (case PRIMITIVES (Class n) of
        Some p \<Rightarrow> Inr (PrimitiveField a d o' p)
      | None \<Rightarrow> Inl (NotImplementedError (Class n)))"
  by (cases "PRIMITIVES (Class n)") (simp_all add: map_to_type_primitive map_to_type_other_class)

lemma non_union_optional_independent:
  assumes "\<not> is_union t"
  shows "map_to_type rt t a d b = map_sum id (with_optional b) (map_to_type rt t a d o')"
proof (cases t)
  case (Class n)
  then show ?thesis by (simp add: map_to_type_class split: option.splits)
next
  case (EnumClass n ms)
  then show ?thesis by (simp add: map_to_type_enum)
next
  case (ModelClass n fs)
  then show ?thesis by (simp add: map_to_type_model split: sum.splits)
next
  case (Alias k og args)
  with assms have nu: "og \<noteq> typing_Union" "og \<noteq> types_UnionType"
    by (auto simp: is_union_def)
  show ?thesis
  proof (cases rule: alias_cases [where og = og and args = args])
    case union
    with nu show ?thesis by simp
  next
    case (list1 x)
    with Alias show ?thesis by (simp add: map_to_type_list split: sum.splits)
  next
    case other
    then show ?thesis unfolding Alias
      by (cases k) (simp_all add: map_to_type_builtin_alias map_to_type_typing_alias)
  qed
next
  case (NotAClass n)
  then show ?thesis by (simp add: map_to_type_not_a_class)
qed

lemma with_optional_sel [simp]:
  "node_optional (with_optional b n) = b"
  "node_alias (with_optional b n) = node_alias n"
  "node_description (with_optional b n) = node_description n"
  "is_UnionField (with_optional b n) = is_UnionField n"
  by (cases n; simp)+

lemma non_union_optional:
  assumes "\<not> is_union t" and "map_to_type rt t a d b = Inr n"
  shows "node_optional n = b"
proof -
  from assms(2) non_union_optional_independent [OF assms(1), of rt a d b b]
  obtain m where "n = with_optional b m" by (cases "map_to_type rt t a d b") auto
  then show ?thesis by simp
qed

lemma distinct_singleton: "distinct xs \<Longrightarrow> set xs = {x} \<Longrightarrow> xs = [x]"
proof (cases xs)
  case Nil
  assume "set xs = {x}" with Nil show ?thesis by simp
next
  case (Cons y ys)
  assume d: "distinct xs" and s: "set xs = {x}"
  from s Cons have y: "y = x" by auto
  from d s Cons y have "set ys \<subseteq> {x}" and "x \<notin> set ys" by auto
  then have "ys = []" by (cases ys) auto
  with Cons y show ?thesis by simp
qed

lemma non_null_facts [simp]:
  "set (non_null rt args) = set args - {NoneType}"
  "distinct (non_null rt args)"
  by (auto simp: non_null_def distinct_removeAll)

lemma length_non_null: "length (non_null rt args) = card (set args - {NoneType})"
  using distinct_card [of "non_null rt args"] by simp

lemma map_to_type_union_single:
  assumes "og = typing_Union \<or> og = types_UnionType" and "non_null rt args = [x]"
  shows "map_to_type rt (Alias k og args) a d o' = map_to_type rt x a d (NoneType \<in> set args)"
  using assms by (simp add: map_to_type_union)

lemma map_to_type_union_many:
  assumes "og = typing_Union \<or> og = types_UnionType" and "length (non_null rt args) \<noteq> 1"
  shows "map_to_type rt (Alias k og args) a d o' =
    (case sequence (map (\<lambda>x. map_to_type rt x None None False) (non_null rt args)) of
       Inl e \<Rightarrow> Inl e
     | Inr ts \<Rightarrow> Inr (UnionField a d (NoneType \<in> set args) ts))"
proof (cases "non_null rt args" rule: remdups_adj.cases)
  case 1
  with assms(1) show ?thesis by (simp add: map_to_type_union)
next
  case (2 x)
  with assms(2) show ?thesis by simp
next
  case (3 x y xs)
  with assms(1) show ?thesis by (simp add: map_to_type_union)
qed

lemma result_meta:
  "map_to_type rt t a d o' = Inr n \<Longrightarrow> node_alias n = a \<and> node_description n = d"
proof (induction t arbitrary: a d o' n rule: measure_induct_rule [where f = size])
  case (less t)
  note res = less.prems
  show ?case
  proof (cases t)
    case (Class c)
    with res show ?thesis by (auto simp: map_to_type_class split: option.splits)
  next
    case (EnumClass c ms)
    with res show ?thesis by (auto simp: map_to_type_enum)
  next
    case (ModelClass c fs)
    with res show ?thesis by (auto simp: map_to_type_model split: sum.splits)
  next
    case (NotAClass c)
    with res show ?thesis by (simp add: map_to_type_not_a_class)
  next
    case (Alias k og args)
    show ?thesis
    proof (cases rule: alias_cases [where og = og and args = args])
      case union
      show ?thesis
      proof (cases "length (non_null rt args) = 1")
        case True
        then obtain x where x: "non_null rt args = [x]"
          by (cases "non_null rt args") auto
        then have "x \<in> set (non_null rt args)" by simp
        then have "x \<in> set args" by simp
        then have "size x < size t" unfolding Alias
          using size_get_args [of x "Alias k og args"] by simp
        moreover have "map_to_type rt x a d (NoneType \<in> set args) = Inr n"
          using res unfolding Alias by (simp add: map_to_type_union_single [OF union x])
        ultimately show ?thesis by (rule less.IH)
      next
        case False
        with res show ?thesis unfolding Alias
          by (auto simp: map_to_type_union_many [OF union] split: sum.splits)
      qed
    next
      case (list1 x)
      with res show ?thesis unfolding Alias
        by (auto simp: map_to_type_list split: sum.splits)
    next
      case other
      from map_to_type_unsupported_alias [OF other, of rt k a d o'] res
      show ?thesis unfolding Alias by auto
    qed
  qed
qed

lemma non_union_not_UnionField:
  assumes "\<not> is_union t" and "map_to_type rt t a d b = Inr n"
  shows "\<not> is_UnionField n"
proof (cases t)
  case (Class c)
  with assms(2) show ?thesis by (auto simp: map_to_type_class split: option.splits)
next
  case (EnumClass c ms)
  with assms(2) show ?thesis by (auto simp: map_to_type_enum)
next
  case (ModelClass c fs)
  with assms(2) show ?thesis by (auto simp: map_to_type_model split: sum.splits)
next
  case (NotAClass c)
  with assms(2) show ?thesis by (simp add: map_to_type_not_a_class)
next
  case (Alias k og args)
  with assms(1) have nu: "og \<noteq> typing_Union" "og \<noteq> types_UnionType"
    by (auto simp: is_union_def)
  show ?thesis
  proof (cases rule: alias_cases [where og = og and args = args])
    case union
    with nu show ?thesis by simp
  next
    case (list1 x)
    with assms(2) show ?thesis unfolding Alias
      by (auto simp: map_to_type_list split: sum.splits)
  next
    case other
    from map_to_type_unsupported_alias [OF other, of rt k a d b] assms(2)
    show ?thesis unfolding Alias by auto
  qed
qed

lemma union_many_result:
  assumes "og = typing_Union \<or> og = types_UnionType"
    and "length (non_null rt args) \<noteq> 1"
    and "\<forall>m \<in> set args - {NoneType}. \<exists>n. map_to_type rt m None None False = Inr n"
  shows "\<exists>ts. map_to_type rt (Alias k og args) a d o' = Inr (UnionField a d (NoneType \<in> set args) ts)
      \<and> map (\<lambda>m. map_to_type rt m None None False) (non_null rt args) = map Inr ts"
proof -
  from assms(3) have "\<forall>m \<in> set (non_null rt args). \<exists>n. map_to_type rt m None None False = Inr n"
    by simp
  from sequence_map_success [OF this]
  obtain ts where "sequence (map (\<lambda>m. map_to_type rt m None None False) (non_null rt args)) = Inr ts"
    and "map (\<lambda>m. map_to_type rt m None None False) (non_null rt args) = map Inr ts"
    by blast
  then show ?thesis by (simp add: map_to_type_union_many [OF assms(1,2)])
qed

lemma map_eq_Inr_member:
  assumes "map f xs = map Inr ts" and "c \<in> set ts"
  shows "\<exists>x \<in> set xs. f x = Inr c"
proof -
  from assms(2) have "Inr c \<in> set (map Inr ts)" by simp
  then have "Inr c \<in> set (map f xs)" by (simp only: assms(1))
  then show ?thesis by auto
qed


lemma dict_snoc: "dict (kvs @ [(k, v)]) = AList.update k v (dict kvs)"
  by (simp add: dict_def)

lemma dict_Nil [simp]: "dict [] = []"
  by (simp add: dict_def)

lemma map_of_dict: "map_of (dict kvs) = map_of (rev kvs)"
proof (induction kvs rule: rev_induct)
  case Nil
  show ?case by simp
next
  case (snoc kv kvs)
  obtain k v where kv: "kv = (k, v)" by (cases kv)
  show ?case unfolding kv dict_snoc by (simp add: update_conv' snoc.IH)
qed

lemma set_dict_keys: "set (map fst (dict kvs)) = set (map fst kvs)"
proof -
  have "dom (map_of (dict kvs)) = dom (map_of (rev kvs))" by (simp only: map_of_dict)
  then show ?thesis by (simp add: dom_map_of_conv_image_fst)
qed

lemma dict_keys: "map fst (dict kvs) = rev (remdups (rev (map fst kvs)))"
proof (induction kvs rule: rev_induct)
  case Nil
  show ?case by simp
next
  case (snoc kv kvs)
  obtain k v where kv: "kv = (k, v)" by (cases kv)
  have mem: "k \<in> fst ` set (dict kvs) \<longleftrightarrow> k \<in> fst ` set kvs"
    using set_dict_keys [of kvs] by simp
  show ?case unfolding kv dict_snoc
    by (simp add: update_keys snoc.IH mem)
qed

lemma distinct_dict_keys: "distinct (map fst (dict kvs))"
  by (simp add: dict_keys)

lemma set_dict_subset: "set (dict kvs) \<subseteq> set kvs"
proof
  fix p assume p: "p \<in> set (dict kvs)"
  obtain k v where kv: "p = (k, v)" by (cases p)
  from p kv distinct_dict_keys [of kvs] have "map_of (dict kvs) k = Some v" by simp
  then have "map_of (rev kvs) k = Some v" by (simp only: map_of_dict)
  then have "(k, v) \<in> set (rev kvs)" by (rule map_of_SomeD)
  with kv show "p \<in> set kvs" by simp
qed

lemma map_field_Inr_iff:
  "map_field rt (name, field) = Inr (k, v) \<longleftrightarrow>
     k = py_or (field_alias field) name
     \<and> map_to_type rt (the (field_annotation field)) (Some name) (field_description field) False = Inr v"
  by (auto simp: map_field_def split: sum.splits)

lemma sequence_map_Inr: "sequence (map Inr xs) = Inr xs"
  by (simp add: sequence_Inr_iff)

lemma model_result:
  "map_to_type rt (ModelClass c fs) a d o' = Inr n \<longleftrightarrow>
     (\<exists>items. map (map_field rt) (annotated fs) = map Inr items
        \<and> n = ObjectField a d o' (dict items))"
proof (cases "sequence (map (map_field rt) (annotated fs))")
  case (Inl e)
  have "map (map_field rt) (annotated fs) \<noteq> map Inr items" for items
  proof
    assume "map (map_field rt) (annotated fs) = map Inr items"
    then have "sequence (map (map_field rt) (annotated fs)) = Inr items"
      by (simp only: sequence_map_Inr)
    with Inl show False by simp
  qed
  with Inl show ?thesis by (simp add: map_to_type_model)
next
  case (Inr items)
  then have "map (map_field rt) (annotated fs) = map Inr items"
    by (simp add: sequence_Inr_iff)
  with Inr show ?thesis by (auto simp: map_to_type_model dest: map_injective)
qed

lemma annotated_size:
  assumes "(name, field) \<in> set (annotated fs)"
  shows "size (the (field_annotation field)) < size (ModelClass c fs)"
proof -
  from assms obtain t where "field_annotation field = Some t" and "(name, field) \<in> set fs"
    by (auto simp: annotated_def)
  then show ?thesis using size_model_fields [of name field "ModelClass c fs" t] by simp
qed

lemma PRIMITIVES_examples:
  "PRIMITIVES (Class ''int'') = Some INTEGER"
  "PRIMITIVES (Class ''str'') = Some STRING"
  "PRIMITIVES (Class ''bytes'') = None"
  "PRIMITIVES NoneType = None"
  by (simp_all add: PRIMITIVES_def)

lemma map_field_key:
  "map_field rt f = Inr kv \<Longrightarrow> fst kv = field_key f"
  by (cases f; cases kv) (simp add: map_field_Inr_iff field_key_alt)

lemma items_keys:
  assumes "map (map_field rt) fs = map Inr items"
  shows "map fst items = map field_key fs"
  using assms
proof (induction fs arbitrary: items)
  case Nil
  then show ?case by simp
next
  case (Cons f fs)
  then obtain kv rest where items: "items = kv # rest" and h: "map_field rt f = Inr kv"
    and t: "map (map_field rt) fs = map Inr rest"
    by (cases items) auto
  from Cons.IH [OF t] map_field_key [OF h] show ?case unfolding items by simp
qed

lemma fields_derive_items:
  assumes "\<forall>(name, field) \<in> set (annotated fs).
     \<exists>v. map_to_type rt (the (field_annotation field)) (Some name) (field_description field) False = Inr v"
  shows "\<exists>items. map (map_field rt) (annotated fs) = map Inr items"
proof -
  have "\<forall>f \<in> set (annotated fs). \<exists>kv. map_field rt f = Inr kv"
  proof
    fix f assume f: "f \<in> set (annotated fs)"
    obtain name field where nf: "f = (name, field)" by (cases f)
    with f assms obtain v where
      "map_to_type rt (the (field_annotation field)) (Some name) (field_description field) False = Inr v"
      by blast
    then have "map_field rt (name, field) = Inr (py_or (field_alias field) name, v)"
      by (simp add: map_field_Inr_iff)
    with nf show "\<exists>kv. map_field rt f = Inr kv" by blast
  qed
  from sequence_map_success [OF this] show ?thesis by blast
qed

lemma example_fields_derive:
  "map_to_type example_runtime (Class ''int'') al de False = Inr (PrimitiveField al de False INTEGER)"
  "map_to_type example_runtime (Class ''str'') al de False = Inr (PrimitiveField al de False STRING)"
  by (simp_all add: map_to_type_primitive PRIMITIVES_examples)

lemma last_key_wins:
  assumes "map fst items = ks1 @ k # ks2" and "k \<notin> set ks2"
  shows "\<exists>v. length ks1 < length items \<and> items ! length ks1 = (k, v)
           \<and> map_of (rev items) k = Some v"
proof -
  from assms(1) obtain us rest where items: "items = us @ rest"
    and us: "map fst us = ks1" and rest: "map fst rest = k # ks2"
    by (auto simp: map_eq_append_conv)
  from rest obtain kv vs where r: "rest = kv # vs" and kv: "fst kv = k"
    and vs: "map fst vs = ks2"
    by (auto simp: map_eq_Cons_conv)
  obtain v where v: "kv = (k, v)" using kv by (cases kv) auto
  have len: "length us = length ks1" using us length_map [of fst us] by simp
  have "k \<notin> fst ` set vs" using assms(2) vs set_map [of fst vs] by simp
  then have "map_of (rev vs) k = None" by (simp add: map_of_eq_None_iff)
  then have "map_of (rev items) k = Some v"
    unfolding items r v by (simp add: map_add_def)
  moreover have "items ! length ks1 = (k, v)"
    unfolding items r v len [symmetric] by simp
  moreover have "length ks1 < length items" unfolding items r using len by simp
  ultimately show ?thesis by blast
qed

lemma repeated_key_shortens:
  assumes "ks = ks1 @ k # ks2 @ k # ks3"
  shows "length (remdups (rev ks)) < length ks"
proof -
  have "\<not> distinct ks" unfolding assms by simp
  then have "card (set ks) \<noteq> length ks" using card_distinct [of ks] by blast
  with card_length [of ks] have "card (set ks) < length ks" by simp
  then show ?thesis by (simp add: length_remdups_card_conv)
qed

lemma document_derives_object:
  "map_to_type rt (document_class doc) None None False = Inr n
    \<Longrightarrow> get_properties n = Inr (properties n) \<and> n = ObjectField None None False (properties n)"
  by (auto simp: document_class_def model_result get_properties_def)

lemma optional_of_non_union:
  assumes "og = typing_Union \<or> og = types_UnionType"
    and "set args = {T, NoneType}" and "T \<noteq> NoneType" and "\<not> is_union T"
  shows "map_to_type rt (Alias k og args) a d o' =
           map_sum id (with_optional True) (map_to_type rt T a d o'')
       \<and> (\<forall>n. map_to_type rt (Alias k og args) a d o' = Inr n
              \<longrightarrow> node_optional n \<and> \<not> is_UnionField n)"
proof -
  have "set (non_null rt args) = {T}" using assms(2,3) by auto
  then have single: "non_null rt args = [T]" by (simp add: distinct_singleton)
  have null: "NoneType \<in> set args" using assms(2) by simp
  have step: "map_to_type rt (Alias k og args) a d o' = map_to_type rt T a d True"
    using map_to_type_union_single [OF assms(1) single, of k a d o'] null by simp
  have eq: "map_to_type rt T a d True = map_sum id (with_optional True) (map_to_type rt T a d o'')"
    by (rule non_union_optional_independent [OF assms(4)])
  have "node_optional n \<and> \<not> is_UnionField n" if "map_to_type rt T a d True = Inr n" for n
    using that non_union_optional [OF assms(4) that] non_union_not_UnionField [OF assms(4) that]
    by simp
  with step eq show ?thesis by simp
qed

lemma same_up_to_child_order_refl [simp]: "same_up_to_child_order n n"
  by (cases n) simp_all

lemma with_optional_id: "node_optional n = b \<Longrightarrow> with_optional b n = n"
  by (cases n) auto

lemma map_eq_Inr_projr:
  assumes "map f xs = map Inr ts"
  shows "ts = map (\<lambda>x. projr (f x)) xs"
  using arg_cong [OF assms, of "map projr"] by (simp add: comp_def)

lemma union_branch_results:
  assumes "og = typing_Union \<or> og = types_UnionType" and "length (non_null rt args) \<noteq> 1"
  shows "map_to_type rt (Alias k og args) a d o' = Inr n \<longleftrightarrow>
     (\<exists>ts. map (\<lambda>m. map_to_type rt m None None False) (non_null rt args) = map Inr ts
        \<and> n = UnionField a d (NoneType \<in> set args) ts)"
proof (cases "sequence (map (\<lambda>m. map_to_type rt m None None False) (non_null rt args))")
  case (Inl e)
  have "map (\<lambda>m. map_to_type rt m None None False) (non_null rt args) \<noteq> map Inr ts" for ts
  proof
    assume "map (\<lambda>m. map_to_type rt m None None False) (non_null rt args) = map Inr ts"
    then have "sequence (map (\<lambda>m. map_to_type rt m None None False) (non_null rt args)) = Inr ts"
      by (simp only: sequence_map_Inr)
    with Inl show False by simp
  qed
  with Inl show ?thesis by (simp add: map_to_type_union_many [OF assms])
next
  case (Inr ts)
  then have "map (\<lambda>m. map_to_type rt m None None False) (non_null rt args) = map Inr ts"
    by (simp add: sequence_Inr_iff)
  moreover have "map Inr ts' = (map Inr ts :: (error + Field) list) \<longleftrightarrow> ts' = ts" for ts'
    by (simp add: inj_map_eq_map)
  ultimately show ?thesis using Inr
    by (simp add: map_to_type_union_many [OF assms] eq_commute [of n])
qed

lemma union_branch_fails:
  assumes "og = typing_Union \<or> og = types_UnionType" and "length (non_null rt args) \<noteq> 1"
  shows "(\<exists>e. map_to_type rt (Alias k og args) a d o' = Inl e) \<longleftrightarrow>
     (\<exists>m \<in> set args - {NoneType}. \<exists>e. map_to_type rt m None None False = Inl e)"
proof -
  have "(\<exists>e. map_to_type rt (Alias k og args) a d o' = Inl e) \<longleftrightarrow>
      (\<exists>e. sequence (map (\<lambda>m. map_to_type rt m None None False) (non_null rt args)) = Inl e)"
    by (auto simp: map_to_type_union_many [OF assms] split: sum.splits)
  also have "\<dots> \<longleftrightarrow> (\<exists>e. Inl e \<in> set (map (\<lambda>m. map_to_type rt m None None False) (non_null rt args)))"
    by (rule sequence_Inl_iff)
  also have "\<dots> \<longleftrightarrow> (\<exists>m \<in> set args - {NoneType}. \<exists>e. map_to_type rt m None None False = Inl e)"
  proof
    assume "\<exists>e. Inl e \<in> set (map (\<lambda>m. map_to_type rt m None None False) (non_null rt args))"
    then obtain e m where "m \<in> set (non_null rt args)"
      and "Inl e = map_to_type rt m None None False" by auto
    then have "m \<in> set args - {NoneType}" and "map_to_type rt m None None False = Inl e"
      by simp_all
    then show "\<exists>m \<in> set args - {NoneType}. \<exists>e. map_to_type rt m None None False = Inl e"
      by blast
  next
    assume "\<exists>m \<in> set args - {NoneType}. \<exists>e. map_to_type rt m None None False = Inl e"
    then obtain m e where m: "m \<in> set (non_null rt args)"
      and e: "map_to_type rt m None None False = Inl e" by auto
    from m have "map_to_type rt m None None False
        \<in> set (map (\<lambda>m. map_to_type rt m None None False) (non_null rt args))"
      by (simp del: non_null_facts)
    with e show "\<exists>e. Inl e \<in> set (map (\<lambda>m. map_to_type rt m None None False) (non_null rt args))"
      by auto
  qed
  finally show ?thesis .
qed

lemma optional_of_union:
  assumes og: "og = typing_Union \<or> og = types_UnionType"
    and og2: "og2 = typing_Union \<or> og2 = types_UnionType"
    and args: "set args = insert NoneType (set targs)"
    and two: "2 \<le> card (set targs)"
    and flat: "\<forall>m \<in> set targs. \<not> is_union m"
  shows "(\<forall>n. map_to_type rt (Alias k2 og2 targs) a d o'' = Inr n \<longrightarrow>
            (\<exists>n'. map_to_type rt (Alias k og args) a d o' = Inr n' \<and> node_optional n'
                \<and> same_up_to_child_order (with_optional True n) n'))
       \<and> ((\<exists>e. map_to_type rt (Alias k2 og2 targs) a d o'' = Inl e) \<longrightarrow>
            (\<exists>e. map_to_type rt (Alias k og args) a d o' = Inl e))"
proof -
  have sets: "set args - {NoneType} = set targs - {NoneType}" using args by auto
  have null: "NoneType \<in> set args" using args by simp
  have ms: "mset (non_null rt args) = mset (non_null rt targs)"
    using sets set_eq_iff_mset_eq_distinct [of "non_null rt args" "non_null rt targs"] by simp
  have len: "length (non_null rt args) = length (non_null rt targs)"
    by (simp add: length_non_null sets)
  show ?thesis
  proof (cases "length (non_null rt targs) = 1")
    case True
    then obtain x where x: "non_null rt targs = [x]" by (cases "non_null rt targs") auto
    then have "set (non_null rt targs) = {x}" by simp
    then have sx: "set targs - {NoneType} = {x}" by simp
    then have "set (non_null rt args) = {x}" using sets by simp
    then have x': "non_null rt args = [x]" by (simp add: distinct_singleton)
    have tnull: "NoneType \<in> set targs"
    proof (rule ccontr)
      assume "NoneType \<notin> set targs"
      with sx have "set targs = {x}" by auto
      with two show False by simp
    qed
    have "x \<in> set targs" using sx by auto
    with flat have nu: "\<not> is_union x" by blast
    have l: "map_to_type rt (Alias k og args) a d o' = map_to_type rt x a d True"
      using map_to_type_union_single [OF og x', of k a d o'] null by simp
    have r: "map_to_type rt (Alias k2 og2 targs) a d o'' = map_to_type rt x a d True"
      using map_to_type_union_single [OF og2 x, of k2 a d o''] tnull by simp
    have "node_optional n \<and> same_up_to_child_order (with_optional True n) n"
      if "map_to_type rt x a d True = Inr n" for n
      using non_union_optional [OF nu that] by (simp add: with_optional_id)
    with l r show ?thesis by simp
  next
    case False
    with len have False': "length (non_null rt args) \<noteq> 1" by simp
    have succ: "\<exists>n'. map_to_type rt (Alias k og args) a d o' = Inr n' \<and> node_optional n'
                \<and> same_up_to_child_order (with_optional True n) n'"
      if "map_to_type rt (Alias k2 og2 targs) a d o'' = Inr n" for n
    proof -
      from that obtain ts where
        ts: "map (\<lambda>m. map_to_type rt m None None False) (non_null rt targs) = map Inr ts"
        and n: "n = UnionField a d (NoneType \<in> set targs) ts"
        unfolding union_branch_results [OF og2 False] by blast
      have "\<forall>m \<in> set args - {NoneType}. \<exists>v. map_to_type rt m None None False = Inr v"
      proof
        fix m assume "m \<in> set args - {NoneType}"
        then have "m \<in> set (non_null rt targs)" using sets by simp
        then have "map_to_type rt m None None False
            \<in> set (map (\<lambda>m. map_to_type rt m None None False) (non_null rt targs))"
          by (simp del: non_null_facts)
        then have "map_to_type rt m None None False \<in> set (map Inr ts)" by (simp only: ts)
        then show "\<exists>v. map_to_type rt m None None False = Inr v" by auto
      qed
      from union_many_result [OF og False' this, of k a d o']
      obtain ts' where res: "map_to_type rt (Alias k og args) a d o' = Inr (UnionField a d True ts')"
        and ts': "map (\<lambda>m. map_to_type rt m None None False) (non_null rt args) = map Inr ts'"
        using null by auto
      have "mset ts' = image_mset (\<lambda>m. projr (map_to_type rt m None None False)) (mset (non_null rt args))"
        using map_eq_Inr_projr [OF ts'] by simp
      also have "\<dots> = image_mset (\<lambda>m. projr (map_to_type rt m None None False)) (mset (non_null rt targs))"
        by (simp only: ms)
      also have "\<dots> = mset ts" using map_eq_Inr_projr [OF ts] by simp
      finally have "mset ts = mset ts'" by simp
      with res n show ?thesis by simp
    qed
    have fail: "\<exists>e. map_to_type rt (Alias k og args) a d o' = Inl e"
      if "\<exists>e. map_to_type rt (Alias k2 og2 targs) a d o'' = Inl e"
      using that unfolding union_branch_fails [OF og False'] union_branch_fails [OF og2 False] sets .
    from succ fail show ?thesis by blast
  qed
qed

lemma is_union_Alias:
  assumes "is_union T"
  obtains k og targs where "T = Alias k og targs" and "og = typing_Union \<or> og = types_UnionType"
  using assms by (cases T) (auto simp: is_union_def)

lemma PRIMITIVES_more:
  "PRIMITIVES (Class ''float'') = Some FLOAT"
  "PRIMITIVES (Class ''bool'') = Some BOOL"
  by (simp_all add: PRIMITIVES_def)

lemma observed_orders:
  "non_null observed_runtime [Class ''int'', Class ''str'', Class ''float'', Class ''bool'']
     = [Class ''str'', Class ''float'', Class ''int'', Class ''bool'']"
  "non_null observed_runtime [Class ''int'', Class ''str'', Class ''float'', Class ''bool'', NoneType]
     = [Class ''float'', Class ''int'', Class ''str'', Class ''bool'']"
  by (auto simp: non_null_def py_set_def Let_def observed_runtime_def)

lemma observed_union_without_null:
  "map_to_type observed_runtime
     (Alias typing_GenericAlias typing_Union
        [Class ''int'', Class ''str'', Class ''float'', Class ''bool''])
     None None False
   = Inr (UnionField None None False
       [PrimitiveField None None False STRING, PrimitiveField None None False FLOAT,
        PrimitiveField None None False INTEGER, PrimitiveField None None False BOOL])"
  by (simp add: map_to_type_union observed_orders map_to_type_primitive PRIMITIVES_examples
      PRIMITIVES_more)

lemma observed_union_with_null:
  "map_to_type observed_runtime
     (Alias typing_GenericAlias typing_Union
        [Class ''int'', Class ''str'', Class ''float'', Class ''bool'', NoneType])
     None None False
   = Inr (UnionField None None True
       [PrimitiveField None None False FLOAT, PrimitiveField None None False INTEGER,
        PrimitiveField None None False STRING, PrimitiveField None None False BOOL])"
  by (simp add: map_to_type_union observed_orders map_to_type_primitive PRIMITIVES_examples
      PRIMITIVES_more)

lemma last_field_stored:
  assumes items: "map (map_field rt) fs = map Inr items"
    and dec: "fs = pre @ (name, field) # post"
    and last: "field_key (name, field) \<notin> field_key ` set post"
  shows "\<exists>v. map_of (dict items) (field_key (name, field)) = Some v
     \<and> map_to_type rt (the (field_annotation field)) (Some name)
          (field_description field) False = Inr v"
proof -
  let ?k = "field_key (name, field)"
  have keys: "map fst items = map field_key pre @ ?k # map field_key post"
    using items_keys [OF items] unfolding dec by simp
  from last have "?k \<notin> set (map field_key post)" by simp
  from last_key_wins [OF keys this]
  obtain v where n: "length (map field_key pre) < length items"
    and at: "items ! length (map field_key pre) = (?k, v)"
    and look: "map_of (rev items) ?k = Some v" by blast
  have pos: "fs ! length (map field_key pre) = (name, field)"
    unfolding dec by simp
  have leq: "length fs = length items"
    using length_map [of "map_field rt" fs] length_map [of Inr items] items by simp
  have "map (map_field rt) fs ! length (map field_key pre) = map Inr items ! length (map field_key pre)"
    by (simp only: items)
  then have "map_field rt (name, field) = Inr (?k, v)"
    using n leq pos at by simp
  then have "map_to_type rt (the (field_annotation field)) (Some name)
          (field_description field) False = Inr v"
    by (simp add: map_field_Inr_iff)
  with look show ?thesis by (auto simp: map_of_dict)
qed

section \<open>Enumerations\<close>

text \<open>
  Claim C7.  For every enumeration class, derivation returns an \<open>EnumField\<close> whose name is
  the name of the enumeration and which has one variant per member, in declaration order:
  the variant's value is the member's value, and its alias is the member's name exactly when
  the name differs from the value, and is absent otherwise.
\<close>

theorem enum_variants_in_declaration_order:
  "\<exists>vs. map_to_type rt (EnumClass n members) a d o' = Inr (EnumField a d o' n vs)
     \<and> length vs = length members
     \<and> (\<forall>i < length members.
          variant_value (vs ! i) = snd (members ! i)
        \<and> variant_alias (vs ! i) =
            (if StrValue (fst (members ! i)) \<noteq> snd (members ! i)
             then Some (fst (members ! i)) else None))"
  by (simp add: map_to_type_enum case_prod_unfold)

theorem enum_variants_in_declaration_order_witness:
  "map_to_type example_runtime
     (EnumClass ''Color'' [(''RED'', StrValue ''r''), (''GREEN'', StrValue ''g''), (''A'', StrValue ''A'')])
     None None False
   = Inr (EnumField None None False ''Color''
       [Variant (StrValue ''r'') (Some ''RED''), Variant (StrValue ''g'') (Some ''GREEN''),
        Variant (StrValue ''A'') None])"
proof -
  let ?ms = "[(''RED'', StrValue ''r''), (''GREEN'', StrValue ''g''), (''A'', StrValue ''A'')]"
  from enum_variants_in_declaration_order [of example_runtime "''Color''" ?ms None None False]
  obtain vs where eq: "map_to_type example_runtime (EnumClass ''Color'' ?ms) None None False
        = Inr (EnumField None None False ''Color'' vs)"
    and len: "length vs = 3"
    and el: "\<forall>i<3. variant_value (vs ! i) = snd (?ms ! i)
        \<and> variant_alias (vs ! i) =
            (if StrValue (fst (?ms ! i)) \<noteq> snd (?ms ! i) then Some (fst (?ms ! i)) else None)"
    by auto
  from len obtain x y z where vs: "vs = [x, y, z]"
    by (auto simp: length_Suc_conv numeral_3_eq_3)
  from el have "x = Variant (StrValue ''r'') (Some ''RED'')"
    and "y = Variant (StrValue ''g'') (Some ''GREEN'')"
    and "z = Variant (StrValue ''A'') None"
    unfolding vs by (auto simp: numeral_3_eq_3 less_Suc_eq all_conj_distrib Variant.expand)
  with eq vs show ?thesis by simp
qed

section \<open>Unions and optional types\<close>

text \<open>
  Claim C1, as amended.  For every type \<open>T\<close> other than the null marker, and any alias
  and description: when deriving \<open>T\<close> returns a node, deriving the union of \<open>T\<close> and the
  null marker returns that node with the optional flag true, where for a \<open>T\<close> that is
  itself a union the children of the \<open>UnionField\<close> are the same but may come in another
  order; when deriving \<open>T\<close> raises, so does deriving the union.  For a \<open>T\<close> that is not a
  union the two results are equal but for the flag (the error is the same), and the node is
  not a \<open>UnionField\<close>.  The union of \<open>T\<close> and the null marker is the one \<^verbatim>\<open>typing\<close>
  builds: its distinct members are those of \<open>T\<close> and \<open>NoneType\<close>, where a union \<open>T\<close> has at
  least two distinct members and no member is a union.
\<close>

theorem null_member_only_sets_optional:
  assumes og: "og = typing_Union \<or> og = types_UnionType"
    and args: "set args = insert NoneType (set (members_of T))"
    and nn: "T \<noteq> NoneType"
    and two: "is_union T \<longrightarrow> 2 \<le> card (set (get_args T))"
    and flat: "\<forall>m \<in> set (members_of T). \<not> is_union m"
  shows "(\<forall>n. map_to_type rt T a d o'' = Inr n \<longrightarrow>
            (\<exists>n'. map_to_type rt (Alias k og args) a d o' = Inr n' \<and> node_optional n'
                \<and> same_up_to_child_order (with_optional True n) n'))
       \<and> ((\<exists>e. map_to_type rt T a d o'' = Inl e) \<longrightarrow>
            (\<exists>e. map_to_type rt (Alias k og args) a d o' = Inl e))
       \<and> (\<not> is_union T \<longrightarrow>
            map_to_type rt (Alias k og args) a d o' =
              map_sum id (with_optional True) (map_to_type rt T a d o'')
          \<and> (\<forall>n. map_to_type rt (Alias k og args) a d o' = Inr n \<longrightarrow> \<not> is_UnionField n))"
proof (cases "is_union T")
  case True
  then obtain k2 og2 targs where T: "T = Alias k2 og2 targs"
    and og2: "og2 = typing_Union \<or> og2 = types_UnionType"
    by (rule is_union_Alias)
  from True have m: "members_of T = targs" unfolding T by (simp add: members_of_def)
  from args have a': "set args = insert NoneType (set targs)" by (simp only: m)
  from two True have t': "2 \<le> card (set targs)" unfolding T by simp
  from flat have f': "\<forall>m \<in> set targs. \<not> is_union m" by (simp only: m)
  from optional_of_union [OF og og2 a' t' f', of rt k2 a d o'' k o'] True
  show ?thesis unfolding T by blast
next
  case False
  then have "members_of T = [T]" by (simp add: members_of_def)
  with args have a': "set args = {T, NoneType}" by auto
  from optional_of_non_union [OF og a' nn False, of rt k a d o' o'']
  have eq: "map_to_type rt (Alias k og args) a d o' =
              map_sum id (with_optional True) (map_to_type rt T a d o'')"
    and shape: "\<forall>n. map_to_type rt (Alias k og args) a d o' = Inr n
        \<longrightarrow> node_optional n \<and> \<not> is_UnionField n"
    by blast+
  have "\<exists>n'. map_to_type rt (Alias k og args) a d o' = Inr n' \<and> node_optional n'
                \<and> same_up_to_child_order (with_optional True n) n'"
    if "map_to_type rt T a d o'' = Inr n" for n
    using that eq by simp
  moreover have "\<exists>e. map_to_type rt (Alias k og args) a d o' = Inl e"
    if "\<exists>e. map_to_type rt T a d o'' = Inl e"
    using that eq by auto
  ultimately show ?thesis using eq shape by blast
qed

theorem null_member_only_sets_optional_witness:
  "\<exists>n'. map_to_type observed_runtime
       (Alias typing_GenericAlias typing_Union
          [Class ''int'', Class ''str'', Class ''float'', Class ''bool'', NoneType])
       None None False = Inr n'
     \<and> node_optional n'
     \<and> same_up_to_child_order
         (UnionField None None True
            [PrimitiveField None None False STRING, PrimitiveField None None False FLOAT,
             PrimitiveField None None False INTEGER, PrimitiveField None None False BOOL]) n'"
proof -
  let ?targs = "[Class ''int'', Class ''str'', Class ''float'', Class ''bool'']"
  let ?T = "Alias typing_GenericAlias typing_Union ?targs"
  have u: "is_union ?T" by (simp add: is_union_def)
  have og: "typing_Union = typing_Union \<or> typing_Union = types_UnionType" by simp
  have args: "set (?targs @ [NoneType]) = insert NoneType (set (members_of ?T))"
    by (auto simp: members_of_def is_union_def)
  have nn: "?T \<noteq> NoneType" by simp
  have two: "is_union ?T \<longrightarrow> 2 \<le> card (set (get_args ?T))" by simp
  have flat: "\<forall>m \<in> set (members_of ?T). \<not> is_union m"
    by (simp add: members_of_def is_union_def)
  from null_member_only_sets_optional [OF og args nn two flat,
      of observed_runtime None None False typing_GenericAlias False]
    observed_union_without_null
  show ?thesis by simp
qed

text \<open>
  The sets of the members of \<^verbatim>\<open>Union[int, str, float, bool]\<close> with and without
  \<^verbatim>\<open>NoneType\<close> iterate in different orders (those of \<open>observed_runtime\<close>), so the
  children of the two \<open>UnionField\<close>s come in different orders and the nodes differ in more
  than the optional flag.
\<close>

theorem union_member_order_counterexample:
  "map_to_type observed_runtime
     (Alias typing_GenericAlias typing_Union
        [Class ''int'', Class ''str'', Class ''float'', Class ''bool'', NoneType])
     None None False
   = Inr (UnionField None None True
       [PrimitiveField None None False FLOAT, PrimitiveField None None False INTEGER,
        PrimitiveField None None False STRING, PrimitiveField None None False BOOL])
   \<and> map_to_type observed_runtime
     (Alias typing_GenericAlias typing_Union
        [Class ''int'', Class ''str'', Class ''float'', Class ''bool''])
     None None False
   = Inr (UnionField None None False
       [PrimitiveField None None False STRING, PrimitiveField None None False FLOAT,
        PrimitiveField None None False INTEGER, PrimitiveField None None False BOOL])
   \<and> UnionField None None True
       [PrimitiveField None None False FLOAT, PrimitiveField None None False INTEGER,
        PrimitiveField None None False STRING, PrimitiveField None None False BOOL]
     \<noteq> with_optional True (UnionField None None False
       [PrimitiveField None None False STRING, PrimitiveField None None False FLOAT,
        PrimitiveField None None False INTEGER, PrimitiveField None None False BOOL])"
  by (simp add: observed_union_with_null observed_union_without_null)

text \<open>
  Claim C4.  For every union with at least two distinct non-null members (with or without a
  null member) whose members each derive, derivation returns a \<open>UnionField\<close> with one child
  per distinct non-null member, each child being the derivation of a member with no alias,
  no description and \<open>optional = False\<close>; the optional flag of the \<open>UnionField\<close> is true
  iff \<open>NoneType\<close> is a member.  No member is itself a union (\<^verbatim>\<open>typing\<close> flattens them).
\<close>

theorem union_node_for_several_members:
  assumes "og = typing_Union \<or> og = types_UnionType"
    and "2 \<le> card (set args - {NoneType})"
    and "\<forall>m \<in> set args. \<not> is_union m"
    and "\<forall>m \<in> set args - {NoneType}. \<exists>n. map_to_type rt m None None False = Inr n"
  shows "\<exists>ts. map_to_type rt (Alias k og args) a d o' = Inr (UnionField a d (NoneType \<in> set args) ts)
      \<and> map (\<lambda>m. map_to_type rt m None None False) (non_null rt args) = map Inr ts
      \<and> length ts = card (set args - {NoneType})
      \<and> (\<forall>c \<in> set ts. \<not> node_optional c \<and> node_alias c = None \<and> node_description c = None)"
proof -
  have len: "length (non_null rt args) \<noteq> 1" using assms(2) by (simp add: length_non_null)
  from union_many_result [OF assms(1) len assms(4), of k a d o']
  obtain ts where res: "map_to_type rt (Alias k og args) a d o' = Inr (UnionField a d (NoneType \<in> set args) ts)"
    and ch: "map (\<lambda>m. map_to_type rt m None None False) (non_null rt args) = map Inr ts"
    by blast
  from ch have "length (non_null rt args) = length ts"
    using length_map [of "\<lambda>m. map_to_type rt m None None False" "non_null rt args"]
      length_map [of Inr ts] by simp
  then have n: "length ts = card (set args - {NoneType})" by (simp add: length_non_null)
  have "\<not> node_optional c \<and> node_alias c = None \<and> node_description c = None" if "c \<in> set ts" for c
  proof -
    from map_eq_Inr_member [OF ch that]
    obtain m where m: "m \<in> set args" and c: "map_to_type rt m None None False = Inr c"
      by auto
    from m assms(3) have "\<not> is_union m" by blast
    from non_union_optional [OF this c] result_meta [OF c] show ?thesis by simp
  qed
  with res ch n show ?thesis by blast
qed

theorem union_node_for_several_members_witness:
  "\<exists>ts. map_to_type example_runtime
       (Alias typing_GenericAlias typing_Union [Class ''int'', Class ''str'', NoneType])
       (Some ''x'') None False = Inr (UnionField (Some ''x'') None True ts)
     \<and> length ts = 2"
proof -
  let ?args = "[Class ''int'', Class ''str'', NoneType]"
  have s: "set ?args - {NoneType} = {Class ''int'', Class ''str''}" by auto
  have h1: "typing_Union = typing_Union \<or> typing_Union = types_UnionType" by simp
  have h2: "2 \<le> card (set ?args - {NoneType})" unfolding s by simp
  have h3: "\<forall>m \<in> set ?args. \<not> is_union m" by (simp add: is_union_def)
  have h4: "\<forall>m \<in> set ?args - {NoneType}.
      \<exists>n. map_to_type example_runtime m None None False = Inr n"
    unfolding s by (simp add: map_to_type_primitive PRIMITIVES_def)
  from union_node_for_several_members [OF h1 h2 h3 h4,
      of typing_GenericAlias "Some ''x''" None False]
  obtain ts where "map_to_type example_runtime (Alias typing_GenericAlias typing_Union ?args)
       (Some ''x'') None False = Inr (UnionField (Some ''x'') None (NoneType \<in> set ?args) ts)"
    and "length ts = card (set ?args - {NoneType})"
    by blast
  then show ?thesis unfolding s by simp
qed


text \<open>
  Claim C10.  For every union annotation without a null member (a union has at least two
  distinct members) whose members each derive, a call with \<open>optional = True\<close> returns a
  node whose optional flag is false: the argument is discarded and the flag recomputed
  from the presence of a null member.
\<close>

theorem caller_optional_is_discarded:
  assumes "og = typing_Union \<or> og = types_UnionType"
    and "NoneType \<notin> set args"
    and "2 \<le> card (set args)"
    and "\<forall>m \<in> set args. \<exists>n. map_to_type rt m None None False = Inr n"
  shows "\<exists>ts. map_to_type rt (Alias k og args) a d True = Inr (UnionField a d False ts)"
proof -
  from assms(2) have eq: "set args - {NoneType} = set args" by simp
  have len: "length (non_null rt args) \<noteq> 1" using assms(3) by (simp add: length_non_null eq)
  from assms(4) have "\<forall>m \<in> set args - {NoneType}. \<exists>n. map_to_type rt m None None False = Inr n"
    by simp
  from union_many_result [OF assms(1) len this, of k a d True] assms(2)
  show ?thesis by auto
qed

theorem caller_optional_is_discarded_witness:
  "\<exists>ts. map_to_type example_runtime
       (Alias typing_GenericAlias types_UnionType [Class ''int'', Class ''str''])
       None None True = Inr (UnionField None None False ts)"
proof -
  have c: "card {Class ''int'', Class ''str''} = 2" by simp
  have "\<exists>n. map_to_type example_runtime (Class ''int'') None None False = Inr n"
    and "\<exists>n. map_to_type example_runtime (Class ''str'') None None False = Inr n"
    by (simp_all add: map_to_type_primitive PRIMITIVES_def)
  then show ?thesis
    using caller_optional_is_discarded [of types_UnionType
      "[Class ''int'', Class ''str'']" example_runtime typing_GenericAlias None None] c
    by simp
qed

section \<open>No union with a single member\<close>

text \<open>
  Claim C8.  In every schema tree that derivation returns for a well-formed annotation,
  every \<open>UnionField\<close> has at least two children (so none has exactly one): a union left
  with a single member once its null member is removed is replaced by the derivation of
  that member.
\<close>

theorem derived_unions_have_two_members:
  "well_formed t \<Longrightarrow> map_to_type rt t a d o' = Inr n \<Longrightarrow> unions_have_two n"
proof (induction t arbitrary: a d o' n rule: measure_induct_rule [where f = size])
  case (less t)
  note wf = less.prems(1) and res = less.prems(2)
  show ?case
  proof (cases t)
    case (Class c)
    with res show ?thesis by (auto simp: map_to_type_class split: option.splits)
  next
    case (EnumClass c ms)
    with res show ?thesis by (auto simp: map_to_type_enum)
  next
    case (NotAClass c)
    with res show ?thesis by (simp add: map_to_type_not_a_class)
  next
    case (ModelClass c fs)
    from res obtain items where items: "map (map_field rt) (annotated fs) = map Inr items"
      and n: "n = ObjectField a d o' (dict items)"
      unfolding ModelClass model_result by blast
    have "unions_have_two v" if "v \<in> set (map snd (dict items))" for v
    proof -
      from that obtain k where "(k, v) \<in> set (dict items)" by auto
      then have "(k, v) \<in> set items" using set_dict_subset by blast
      from map_eq_Inr_member [OF items this]
      obtain name field where f: "(name, field) \<in> set (annotated fs)"
        and r: "map_field rt (name, field) = Inr (k, v)" by auto
      from f wf have w: "well_formed (the (field_annotation field))"
        unfolding ModelClass by auto
      from r have "map_to_type rt (the (field_annotation field)) (Some name)
          (field_description field) False = Inr v"
        by (simp add: map_field_Inr_iff)
      with annotated_size [OF f, of c] w show ?thesis
        unfolding ModelClass [symmetric] by (rule less.IH)
    qed
    with n show ?thesis by simp
  next
    case (Alias k og args)
    from wf have wfa: "\<forall>x \<in> set args. well_formed x" unfolding Alias by simp
    have smaller: "size x < size t" if "x \<in> set args" for x
      using that size_get_args [of x "Alias k og args"] unfolding Alias by simp
    show ?thesis
    proof (cases rule: alias_cases [where og = og and args = args])
      case union
      from wf union have two: "2 \<le> card (set args)"
        unfolding Alias by (auto simp: length_remdups_card_conv)
      show ?thesis
      proof (cases "length (non_null rt args) = 1")
        case True
        then obtain x where x: "non_null rt args = [x]"
          by (cases "non_null rt args") auto
        then have "x \<in> set (non_null rt args)" by simp
        then have mem: "x \<in> set args" by simp
        have "map_to_type rt x a d (NoneType \<in> set args) = Inr n"
          using res unfolding Alias by (simp add: map_to_type_union_single [OF union x])
        with smaller [OF mem] wfa mem show ?thesis by (auto intro: less.IH)
      next
        case False
        from res obtain ts where n: "n = UnionField a d (NoneType \<in> set args) ts"
          and ts: "map (\<lambda>x. map_to_type rt x None None False) (non_null rt args) = map Inr ts"
          unfolding Alias
          by (auto simp: map_to_type_union_many [OF union False] sequence_Inr_iff split: sum.splits)
        from ts have "length (non_null rt args) = length ts"
          using length_map [of "\<lambda>x. map_to_type rt x None None False" "non_null rt args"]
            length_map [of Inr ts] by simp
        then have len: "length ts = card (set args - {NoneType})" by (simp add: length_non_null)
        have "card (set args) \<le> Suc (card (set args - {NoneType}))"
          by (metis card_Suc_Diff1 List.finite_set le_SucI order_refl Diff_empty Diff_insert0)
        with two False len have l2: "2 \<le> length ts" by (simp add: length_non_null)
        have "unions_have_two c" if "c \<in> set ts" for c
        proof -
          from map_eq_Inr_member [OF ts that]
          obtain m where m: "m \<in> set args" and c: "map_to_type rt m None None False = Inr c"
            by auto
          with smaller [OF m] wfa show ?thesis by (auto intro: less.IH)
        qed
        with n l2 show ?thesis by simp
      qed
    next
      case (list1 x)
      from res obtain i where n: "n = ArrayField a d o' i"
        and i: "map_to_type rt x None None False = Inr i"
        unfolding Alias list1 by (auto simp: map_to_type_list split: sum.splits)
      have "x \<in> set args" using list1 by simp
      with smaller wfa i have "unions_have_two i" by (auto intro: less.IH)
      with n show ?thesis by simp
    next
      case other
      from map_to_type_unsupported_alias [OF other, of rt k a d o'] res
      show ?thesis unfolding Alias by auto
    qed
  qed
qed

theorem derived_unions_have_two_members_witness:
  "well_formed (ModelClass ''M'' [(''x'', FieldInfo None None
       (Some (Alias typing_GenericAlias typing_Union [Class ''int'', Class ''str'', NoneType])))])
   \<and> map_to_type example_runtime (ModelClass ''M'' [(''x'', FieldInfo None None
       (Some (Alias typing_GenericAlias typing_Union [Class ''int'', Class ''str'', NoneType])))])
       None None False
     = Inr (ObjectField None None False [(''x'', UnionField (Some ''x'') None True
         [PrimitiveField None None False INTEGER, PrimitiveField None None False STRING])])
   \<and> unions_have_two (ObjectField None None False [(''x'', UnionField (Some ''x'') None True
         [PrimitiveField None None False INTEGER, PrimitiveField None None False STRING])])"
proof -
  let ?t = "ModelClass ''M'' [(''x'', FieldInfo None None
       (Some (Alias typing_GenericAlias typing_Union [Class ''int'', Class ''str'', NoneType])))]"
  have wf: "well_formed ?t" by (simp add: annotated_def)
  have ev: "map_to_type example_runtime ?t None None False
     = Inr (ObjectField None None False [(''x'', UnionField (Some ''x'') None True
         [PrimitiveField None None False INTEGER, PrimitiveField None None False STRING])])"
    by (simp add: map_to_type_model annotated_def map_field_def map_to_type_union
        non_null_def py_set_def Let_def example_runtime_def map_to_type_primitive
        PRIMITIVES_examples
        py_or_def dict_def)
  from derived_unions_have_two_members [OF wf ev] wf ev show ?thesis by (simp only: simp_thms)
qed

section \<open>Structured types\<close>

text \<open>
  Claim C6, as amended.  For every structured type whose annotated fields each derive, the
  derived \<open>ObjectField\<close> has the keys of its properties in declaration order of the
  fields (a key that occurs again keeps its first position); a field without annotation is
  skipped and does not make the derivation fail; the key of a field is its explicit alias
  when that is present and not the empty string, and its declared name otherwise.
\<close>

theorem properties_keys_in_declaration_order:
  assumes "\<forall>(name, field) \<in> set (annotated fs).
     \<exists>v. map_to_type rt (the (field_annotation field)) (Some name) (field_description field) False = Inr v"
  shows "\<exists>props. map_to_type rt (ModelClass c fs) a d o' = Inr (ObjectField a d o' props)
     \<and> map fst props = rev (remdups (rev (map field_key (annotated fs))))"
proof -
  from fields_derive_items [OF assms]
  obtain items where items: "map (map_field rt) (annotated fs) = map Inr items" by blast
  then have "map_to_type rt (ModelClass c fs) a d o' = Inr (ObjectField a d o' (dict items))"
    using model_result [of rt c fs a d o' "ObjectField a d o' (dict items)"] by blast
  moreover have "map fst (dict items) = rev (remdups (rev (map field_key (annotated fs))))"
    by (simp add: dict_keys items_keys [OF items])
  ultimately show ?thesis by blast
qed

theorem properties_keys_in_declaration_order_witness:
  "\<exists>props. map_to_type example_runtime
       (ModelClass ''User''
          [(''id'', FieldInfo None None (Some (Class ''int''))),
           (''note'', FieldInfo None None None),
           (''name'', FieldInfo (Some ''nm'') None (Some (Class ''str'')))])
       None None False = Inr (ObjectField None None False props)
     \<and> map fst props = [''id'', ''nm'']"
proof -
  let ?fs = "[(''id'', FieldInfo None None (Some (Class ''int''))),
           (''note'', FieldInfo None None None),
           (''name'', FieldInfo (Some ''nm'') None (Some (Class ''str'')))]"
  have h: "\<forall>(name, field) \<in> set (annotated ?fs).
     \<exists>v. map_to_type example_runtime (the (field_annotation field)) (Some name)
            (field_description field) False = Inr v"
    by (simp add: annotated_def example_fields_derive)
  have k: "rev (remdups (rev (map field_key (annotated ?fs)))) = [''id'', ''nm'']"
    by (simp add: annotated_def field_key_alt py_or_def)
  from properties_keys_in_declaration_order [OF h, of "''User''" None None False]
  show ?thesis unfolding k .
qed

text \<open>
  A field whose alias is the empty string is keyed by its declared name, although an alias
  is present: \<^verbatim>\<open>field.alias or name\<close> takes the name for every falsy alias.
\<close>

theorem empty_alias_counterexample:
  "map_to_type example_runtime
     (ModelClass ''M'' [(''x'', FieldInfo (Some '''') None (Some (Class ''int'')))])
     None None False
   = Inr (ObjectField None None False [(''x'', PrimitiveField (Some ''x'') None False INTEGER)])
   \<and> field_alias (FieldInfo (Some '''') None (Some (Class ''int''))) = Some ''''"
  by (simp add: map_to_type_model annotated_def map_field_def example_fields_derive
      py_or_def dict_def)

text \<open>
  Claim C3, as amended.  When the annotated fields of a structured type each derive, the
  type derives to an \<open>ObjectField\<close> in which the child of each annotated field is stored
  under the key of the field (unless a later field has the same key): the child is the
  derivation of the type of the field with the declared name of the field as alias, the
  description of the field, and \<open>optional = False\<close>, so its alias attribute is the declared
  name; every entry of the properties is such a child.  The declared rename is the key of
  the entry, not the alias of the child.
\<close>

theorem field_child_derived_with_declared_name:
  assumes dv: "\<forall>(name, field) \<in> set (annotated fs).
       \<exists>v. map_to_type rt (the (field_annotation field)) (Some name)
              (field_description field) False = Inr v"
  shows "\<exists>props. map_to_type rt (ModelClass c fs) a d o' = Inr (ObjectField a d o' props)
     \<and> (\<forall>pre name field post.
           annotated fs = pre @ (name, field) # post
           \<and> field_key (name, field) \<notin> field_key ` set post \<longrightarrow>
           (\<exists>v. map_of props (field_key (name, field)) = Some v
              \<and> map_to_type rt (the (field_annotation field)) (Some name)
                   (field_description field) False = Inr v
              \<and> node_alias v = Some name \<and> node_description v = field_description field))
     \<and> (\<forall>(k, v) \<in> set props.
           \<exists>(name, field) \<in> set (annotated fs).
              k = field_key (name, field)
            \<and> map_to_type rt (the (field_annotation field)) (Some name)
                  (field_description field) False = Inr v
            \<and> node_alias v = Some name \<and> node_description v = field_description field)"
proof -
  from fields_derive_items [OF dv]
  obtain items where items: "map (map_field rt) (annotated fs) = map Inr items" by blast
  then have res: "map_to_type rt (ModelClass c fs) a d o' = Inr (ObjectField a d o' (dict items))"
    using model_result [of rt c fs a d o' "ObjectField a d o' (dict items)"] by blast
  have stored: "\<exists>v. map_of (dict items) (field_key (name, field)) = Some v
              \<and> map_to_type rt (the (field_annotation field)) (Some name)
                   (field_description field) False = Inr v
              \<and> node_alias v = Some name \<and> node_description v = field_description field"
    if "annotated fs = pre @ (name, field) # post"
      and "field_key (name, field) \<notin> field_key ` set post" for pre name field post
  proof -
    from last_field_stored [OF items that]
    obtain v where "map_of (dict items) (field_key (name, field)) = Some v"
      and v: "map_to_type rt (the (field_annotation field)) (Some name)
          (field_description field) False = Inr v" by blast
    with result_meta [OF v] show ?thesis by blast
  qed
  have entry: "\<exists>(name, field) \<in> set (annotated fs).
              k = field_key (name, field)
            \<and> map_to_type rt (the (field_annotation field)) (Some name)
                  (field_description field) False = Inr v
            \<and> node_alias v = Some name \<and> node_description v = field_description field"
    if "(k, v) \<in> set (dict items)" for k v
  proof -
    from that have "(k, v) \<in> set items" using set_dict_subset by fastforce
    from map_eq_Inr_member [OF items this]
    obtain name field where f: "(name, field) \<in> set (annotated fs)"
      and r: "map_field rt (name, field) = Inr (k, v)" by auto
    from r have k: "k = field_key (name, field)"
      and v: "map_to_type rt (the (field_annotation field)) (Some name)
          (field_description field) False = Inr v"
      by (simp_all add: map_field_Inr_iff field_key_alt)
    from result_meta [OF v] f k v show ?thesis by blast
  qed
  from res stored entry show ?thesis by blast
qed

theorem field_child_derived_with_declared_name_witness:
  "\<exists>props. map_to_type example_runtime
       (ModelClass ''Product''
          [(''product_id'', FieldInfo (Some ''id'') None (Some (Class ''int'')))])
       None None False = Inr (ObjectField None None False props)
     \<and> map_of props ''id'' = Some (PrimitiveField (Some ''product_id'') None False INTEGER)"
proof -
  let ?f = "FieldInfo (Some ''id'') None (Some (Class ''int''))"
  let ?fs = "[(''product_id'', ?f)]"
  have dv: "\<forall>(name, field) \<in> set (annotated ?fs).
       \<exists>v. map_to_type example_runtime (the (field_annotation field)) (Some name)
              (field_description field) False = Inr v"
    by (simp add: annotated_def example_fields_derive)
  have dec: "annotated ?fs = [] @ (''product_id'', ?f) # []
      \<and> field_key (''product_id'', ?f) \<notin> field_key ` set []"
    by (simp add: annotated_def)
  have key: "field_key (''product_id'', ?f) = ''id''"
    by (simp add: field_key_def given_def)
  from field_child_derived_with_declared_name [OF dv, of "''Product''" None None False]
  obtain props where res: "map_to_type example_runtime (ModelClass ''Product'' ?fs) None None False
        = Inr (ObjectField None None False props)"
    and st: "\<forall>pre name field post.
           annotated ?fs = pre @ (name, field) # post
           \<and> field_key (name, field) \<notin> field_key ` set post \<longrightarrow>
           (\<exists>v. map_of props (field_key (name, field)) = Some v
              \<and> map_to_type example_runtime (the (field_annotation field)) (Some name)
                   (field_description field) False = Inr v
              \<and> node_alias v = Some name \<and> node_description v = field_description field)"
    by blast
  from st dec obtain v where "map_of props (field_key (''product_id'', ?f)) = Some v"
    and "map_to_type example_runtime (the (field_annotation ?f)) (Some ''product_id'')
          (field_description ?f) False = Inr v"
    by blast
  then have "map_of props ''id'' = Some (PrimitiveField (Some ''product_id'') None False INTEGER)"
    by (simp add: key example_fields_derive)
  with res show ?thesis by blast
qed

text \<open>
  The field \<^verbatim>\<open>product_id\<close> renamed to \<^verbatim>\<open>id\<close>: the child is stored under the key
  \<^verbatim>\<open>id\<close> and its alias attribute is \<^verbatim>\<open>product_id\<close>.
\<close>

theorem child_alias_counterexample:
  "map_to_type example_runtime
     (ModelClass ''Product'' [(''product_id'', FieldInfo (Some ''id'') None (Some (Class ''int'')))])
     None None False
   = Inr (ObjectField None None False
       [(''id'', PrimitiveField (Some ''product_id'') None False INTEGER)])
   \<and> node_alias (PrimitiveField (Some ''product_id'') None False INTEGER) \<noteq> Some ''id''"
  by (simp add: map_to_type_model annotated_def map_field_def example_fields_derive
      py_or_def dict_def)

text \<open>
  Claim C9.  If two annotated fields of a structured type resolve to the same key, and the
  fields of the type each derive, derivation does not fail: the properties hold one entry
  for that key, the node derived for the last field with that key, and fewer entries than
  there are annotated fields, so the node of the earlier field is lost.
\<close>

theorem later_field_overwrites_earlier:
  assumes dv: "\<forall>(name, field) \<in> set (annotated fs).
       \<exists>v. map_to_type rt (the (field_annotation field)) (Some name)
              (field_description field) False = Inr v"
    and dec: "annotated fs = pre @ (name1, field1) # mid @ (name2, field2) # post"
    and k1: "field_key (name1, field1) = k"
    and k2: "field_key (name2, field2) = k"
    and last: "k \<notin> field_key ` set post"
  shows "\<exists>props v. map_to_type rt (ModelClass c fs) a d o' = Inr (ObjectField a d o' props)
     \<and> map_to_type rt (the (field_annotation field2)) (Some name2)
          (field_description field2) False = Inr v
     \<and> map_of props k = Some v
     \<and> distinct (map fst props)
     \<and> length props < length (annotated fs)"
proof -
  from fields_derive_items [OF dv]
  obtain items where items: "map (map_field rt) (annotated fs) = map Inr items" by blast
  then have res: "map_to_type rt (ModelClass c fs) a d o' = Inr (ObjectField a d o' (dict items))"
    using model_result [of rt c fs a d o' "ObjectField a d o' (dict items)"] by blast
  let ?ks1 = "map field_key (pre @ (name1, field1) # mid)"
  have keys: "map fst items = ?ks1 @ k # map field_key post"
    using items_keys [OF items] k2 unfolding dec by simp
  from last have "k \<notin> set (map field_key post)" by simp
  from last_key_wins [OF keys this]
  obtain v where n: "length ?ks1 < length items" and at: "items ! length ?ks1 = (k, v)"
    and look: "map_of (rev items) k = Some v" by blast
  have pos: "annotated fs ! length ?ks1 = (name2, field2)"
    unfolding dec using nth_append_length [of "pre @ (name1, field1) # mid" "(name2, field2)" post]
    by simp
  have leq: "length (annotated fs) = length items"
    using length_map [of "map_field rt" "annotated fs"] length_map [of Inr items] items by simp
  have "map (map_field rt) (annotated fs) ! length ?ks1 = map Inr items ! length ?ks1"
    by (simp only: items)
  then have "map_field rt (name2, field2) = Inr (k, v)"
    using n leq pos at by simp
  then have v: "map_to_type rt (the (field_annotation field2)) (Some name2)
          (field_description field2) False = Inr v"
    by (simp add: map_field_Inr_iff)
  have short: "length (dict items) < length (annotated fs)"
  proof -
    have "map fst items = map field_key pre @ k # map field_key mid @ k # map field_key post"
      using keys k1 by simp
    from repeated_key_shortens [OF this]
    have "length (map fst (dict items)) < length (map fst items)" by (simp add: dict_keys)
    then show ?thesis using leq by simp
  qed
  from res v look short distinct_dict_keys [of items] show ?thesis
    by (auto simp: map_of_dict)
qed

theorem later_field_overwrites_earlier_witness:
  "map_to_type example_runtime
     (ModelClass ''M''
        [(''a'', FieldInfo (Some ''k'') None (Some (Class ''int''))),
         (''k'', FieldInfo None None (Some (Class ''str'')))])
     None None False
   = Inr (ObjectField None None False [(''k'', PrimitiveField (Some ''k'') None False STRING)])"
proof -
  let ?fs = "[(''a'', FieldInfo (Some ''k'') None (Some (Class ''int''))),
         (''k'', FieldInfo None None (Some (Class ''str'')))]"
  have dv: "\<forall>(name, field) \<in> set (annotated ?fs).
       \<exists>v. map_to_type example_runtime (the (field_annotation field)) (Some name)
              (field_description field) False = Inr v"
    by (simp add: annotated_def example_fields_derive)
  have dec: "annotated ?fs = [] @ (''a'', FieldInfo (Some ''k'') None (Some (Class ''int'')))
      # [] @ (''k'', FieldInfo None None (Some (Class ''str''))) # []"
    by (simp add: annotated_def)
  have k1: "field_key (''a'', FieldInfo (Some ''k'') None (Some (Class ''int''))) = ''k''"
    and k2: "field_key (''k'', FieldInfo None None (Some (Class ''str''))) = ''k''"
    by (simp_all add: field_key_def given_def)
  have last: "''k'' \<notin> field_key ` set []" by simp
  from later_field_overwrites_earlier [OF dv dec k1 k2 last, of "''M''" None None False]
  obtain props v where res: "map_to_type example_runtime (ModelClass ''M'' ?fs) None None False
        = Inr (ObjectField None None False props)"
    and v: "map_to_type example_runtime (Class ''str'') (Some ''k'') None False = Inr v"
    and look: "map_of props ''k'' = Some v"
    and len: "length props < length (annotated ?fs)"
    by auto
  from v have v': "v = PrimitiveField (Some ''k'') None False STRING"
    by (simp add: example_fields_derive)
  from len have "length props < 2" by (simp add: annotated_def)
  with look have "props = [(''k'', v)]"
    by (cases props; cases "tl props") (auto split: if_splits)
  with res v' show ?thesis by simp
qed

section \<open>Tables\<close>

text \<open>
  Claim C5, as amended.  For every sequence of documents that each derive, assembling
  returns one table per document, in the order of the documents.  The name of a table is
  the declared collection name when that is set and not the empty string, else the declared
  table name when that is set and not the empty string, else the name of the class; its
  alias is the name of the class, and its fields are the properties of the
  \<open>ObjectField\<close> derived for the document.
\<close>

theorem one_table_per_document:
  assumes "\<forall>doc \<in> set documents. \<exists>n. map_to_type rt (document_class doc) None None False = Inr n"
  shows "\<exists>tables. map_documents_to_tables rt documents = Inr tables
     \<and> length tables = length documents
     \<and> (\<forall>i < length documents.
          table_name (tables ! i) = resolved_name (documents ! i)
        \<and> table_alias (tables ! i) = doc_name (documents ! i)
        \<and> map_to_type rt (document_class (documents ! i)) None None False
            = Inr (ObjectField None None False (table_fields (tables ! i))))"
proof -
  let ?f = "\<lambda>doc. case map_to_type rt (document_class doc) None None False of
                 Inl e \<Rightarrow> Inl e
               | Inr node \<Rightarrow>
                 (case get_properties node of
                    Inl e \<Rightarrow> Inl e
                  | Inr props \<Rightarrow>
                      Inr \<lparr>table_name =
                             py_or (doc_collection doc) (py_or (doc_table doc) (doc_name doc)),
                           table_alias = doc_name doc,
                           table_fields = props\<rparr>)"
  have one: "?f doc = Inr \<lparr>table_name = resolved_name doc, table_alias = doc_name doc,
                           table_fields = properties n\<rparr>"
    if "map_to_type rt (document_class doc) None None False = Inr n" for doc n
    using that document_derives_object [OF that] by (simp add: resolved_name_alt)
  have "\<forall>doc \<in> set documents. \<exists>t. ?f doc = Inr t"
  proof
    fix doc assume "doc \<in> set documents"
    with assms obtain n where "map_to_type rt (document_class doc) None None False = Inr n"
      by blast
    from one [OF this] show "\<exists>t. ?f doc = Inr t" by blast
  qed
  from sequence_map_success [OF this]
  obtain tables where seq: "sequence (map ?f documents) = Inr tables"
    and eq: "map ?f documents = map Inr tables" by blast
  have len: "length tables = length documents"
    using length_map [of ?f documents] length_map [of Inr tables] eq by simp
  have "table_name (tables ! i) = resolved_name (documents ! i)
        \<and> table_alias (tables ! i) = doc_name (documents ! i)
        \<and> map_to_type rt (document_class (documents ! i)) None None False
            = Inr (ObjectField None None False (table_fields (tables ! i)))"
    if i: "i < length documents" for i
  proof -
    from i assms obtain n where n: "map_to_type rt (document_class (documents ! i)) None None False = Inr n"
      by (meson nth_mem)
    have "map ?f documents ! i = map Inr tables ! i" by (simp only: eq)
    with i len have "?f (documents ! i) = Inr (tables ! i)" by simp
    with one [OF n] have "tables ! i = \<lparr>table_name = resolved_name (documents ! i),
        table_alias = doc_name (documents ! i), table_fields = properties n\<rparr>"
      by simp
    with n document_derives_object [OF n] show ?thesis by simp
  qed
  with seq len show ?thesis by (auto simp: map_documents_to_tables_def)
qed

theorem one_table_per_document_witness:
  "map_documents_to_tables example_runtime
     [Document (Some ''users'') None ''User'' [(''id'', FieldInfo None None (Some (Class ''int'')))],
      Document None (Some ''orders'') ''Order'' [(''total'', FieldInfo None None (Some (Class ''int'')))]]
   = Inr [\<lparr>table_name = ''users'', table_alias = ''User'',
           table_fields = [(''id'', PrimitiveField (Some ''id'') None False INTEGER)]\<rparr>,
          \<lparr>table_name = ''orders'', table_alias = ''Order'',
           table_fields = [(''total'', PrimitiveField (Some ''total'') None False INTEGER)]\<rparr>]"
proof -
  let ?u = "Document (Some ''users'') None ''User'' [(''id'', FieldInfo None None (Some (Class ''int'')))]"
  let ?o = "Document None (Some ''orders'') ''Order'' [(''total'', FieldInfo None None (Some (Class ''int'')))]"
  have u: "map_to_type example_runtime (document_class ?u) None None False
      = Inr (ObjectField None None False [(''id'', PrimitiveField (Some ''id'') None False INTEGER)])"
    and o: "map_to_type example_runtime (document_class ?o) None None False
      = Inr (ObjectField None None False [(''total'', PrimitiveField (Some ''total'') None False INTEGER)])"
    by (simp_all add: document_class_def map_to_type_model annotated_def map_field_def
        example_fields_derive py_or_def dict_def)
  have h: "\<forall>doc \<in> set [?u, ?o]. \<exists>n. map_to_type example_runtime (document_class doc) None None False = Inr n"
    using u o by simp
  from one_table_per_document [OF h]
  obtain tables where res: "map_documents_to_tables example_runtime [?u, ?o] = Inr tables"
    and len: "length tables = 2"
    and el: "\<forall>i<2. table_name (tables ! i) = resolved_name ([?u, ?o] ! i)
        \<and> table_alias (tables ! i) = doc_name ([?u, ?o] ! i)
        \<and> map_to_type example_runtime (document_class ([?u, ?o] ! i)) None None False
            = Inr (ObjectField None None False (table_fields (tables ! i)))"
    by auto
  from len obtain x y where t: "tables = [x, y]"
    by (auto simp: length_Suc_conv numeral_2_eq_2)
  from el [unfolded t] u o
  have "x = \<lparr>table_name = ''users'', table_alias = ''User'',
           table_fields = [(''id'', PrimitiveField (Some ''id'') None False INTEGER)]\<rparr>"
    and "y = \<lparr>table_name = ''orders'', table_alias = ''Order'',
           table_fields = [(''total'', PrimitiveField (Some ''total'') None False INTEGER)]\<rparr>"
    by (auto simp: numeral_2_eq_2 less_Suc_eq all_conj_distrib resolved_name_alt py_or_def)
  with res t show ?thesis by simp
qed

text \<open>
  A document whose collection name is declared as the empty string is named after its
  table name: \<^verbatim>\<open>or\<close> passes over every falsy name.
\<close>

theorem empty_collection_name_counterexample:
  "map_documents_to_tables example_runtime [Document (Some '''') (Some ''t'') ''D'' []]
     = Inr [\<lparr>table_name = ''t'', table_alias = ''D'', table_fields = []\<rparr>]
   \<and> doc_collection (Document (Some '''') (Some ''t'') ''D'' []) = Some ''''"
  by (simp add: map_documents_to_tables_def document_class_def map_to_type_model annotated_def
      get_properties_def py_or_def)

section \<open>Unsupported types\<close>

text \<open>
  Claim C2.  A type that matches none of the recognised shapes should make derivation raise
  an error that names the type.  For the unparameterised \<^verbatim>\<open>typing.List\<close> (origin
  \<^verbatim>\<open>list\<close>, no arguments) and for \<^verbatim>\<open>typing.Dict[str, int]\<close> the call
  \<^verbatim>\<open>issubclass(annotation, Enum)\<close> raises first, and its message names no type; for
  a plain class such as \<^verbatim>\<open>bytes\<close> the error names the class.
\<close>

theorem unsupported_alias_error_names_no_type:
  "map_to_type rt (Alias typing_GenericAlias builtins_list []) a d o'
     = Inl (TypeError ''issubclass() arg 1 must be a class'')
   \<and> map_to_type rt (Alias typing_GenericAlias (other_origin ''dict'') [Class ''str'', Class ''int'']) a d o'
     = Inl (TypeError ''issubclass() arg 1 must be a class'')
   \<and> map_to_type rt (Class ''bytes'') a d o' = Inl (NotImplementedError (Class ''bytes''))"
  by (simp add: map_to_type_typing_alias map_to_type_other_class PRIMITIVES_examples
      not_a_class_def)

end
